theory Spec2Isabelle
  imports Main "HOL-Library.Multiset"
begin

section \<open>Data model\<close>

text \<open>
  The program is \<^verbatim>\<open>pdf_split.cpp\<close>. A \<^verbatim>\<open>poppler::image\<close> is an opaque payload; the
  program never constructs one (the image loop is commented out), so the \<open>images\<close> field of
  every result stays empty. The member \<^verbatim>\<open>text\<close> is named \<open>text_layer\<close> here, and the
  members \<^verbatim>\<open>queue_\<close> and \<^verbatim>\<open>finished_\<close> lose their trailing underscore, because the
  source spellings are not names Isabelle accepts.
\<close>

datatype image = Image "nat list"

record PageResult =
  pdf_name :: string
  page_id :: int
  text_layer :: string
  images :: "(int \<times> image) list"

text \<open>
  The document engine (poppler) is outside the repository. A page is modelled by what the
  program reads from it, the UTF-8 bytes of its text; a document by its page count and its
  \<^verbatim>\<open>create_page\<close>, which yields no page (a null pointer) where the page cannot be opened.
\<close>

datatype page = Page (text_to_utf8: string)

record document =
  pages :: int
  create_page :: "int \<Rightarrow> page option"

definition process_page :: "page option \<Rightarrow> string \<Rightarrow> int \<Rightarrow> PageResult" where
  "process_page pg name i =
     (let result = \<lparr>pdf_name = name, page_id = i, text_layer = [], images = []\<rparr>
      in case pg of
           None \<Rightarrow> result
         | Some p \<Rightarrow> result\<lparr>text_layer := text_to_utf8 p\<rparr>)"

section \<open>The result queue\<close>

text \<open>
  \<^verbatim>\<open>PageResultQueue\<close>: every member function holds the mutex for its whole body, so each
  is one atomic transformation of the pair (queue, finished flag). \<open>pop\<close> waits on the
  condition variable while the queue is empty and the flag is unset: that is the value
  \<open>None\<close> (the call has not returned). When it returns, \<open>Some (None, q)\<close> is the C++
  \<^verbatim>\<open>false\<close> and \<open>Some (Some r, q')\<close> is \<^verbatim>\<open>true\<close> with \<open>r\<close> moved into the out-parameter.
\<close>

record PageResultQueue =
  queue :: "PageResult list"
  finished :: bool

definition empty_queue :: PageResultQueue where
  "empty_queue = \<lparr>queue = [], finished = False\<rparr>"

definition push :: "PageResultQueue \<Rightarrow> PageResult \<Rightarrow> PageResultQueue" where
  "push q result = q\<lparr>queue := queue q @ [result]\<rparr>"

definition pop :: "PageResultQueue \<Rightarrow> (PageResult option \<times> PageResultQueue) option" where
  "pop q =
     (if \<not> (queue q \<noteq> [] \<or> finished q) then None
      else case queue q of
             [] \<Rightarrow> Some (None, q)
           | r # rest \<Rightarrow> Some (Some r, q\<lparr>queue := rest\<rparr>))"

definition set_finished :: "PageResultQueue \<Rightarrow> PageResultQueue" where
  "set_finished q = q\<lparr>finished := True\<rparr>"

text \<open>\<open>pops n q\<close>: the return values of \<open>n\<close> consecutive calls of \<open>pop\<close> that all return.\<close>

fun pops :: "nat \<Rightarrow> PageResultQueue \<Rightarrow> PageResult option list option" where
  "pops 0 q = Some []"
| "pops (Suc n) q =
     (case pop q of
        None \<Rightarrow> None
      | Some (r, q') \<Rightarrow> (case pops n q' of None \<Rightarrow> None | Some rs \<Rightarrow> Some (r # rs)))"

section \<open>Paths and the file system\<close>

text \<open>
  A \<^verbatim>\<open>std::filesystem::path\<close> is held as its list of components, in the generic (POSIX)
  format: the separator is \<^verbatim>\<open>/\<close>, repeated separators collapse, and an absolute path has
  the root directory \<^verbatim>\<open>/\<close> as its first component. Components are names only: \<^verbatim>\<open>.\<close>,
  \<^verbatim>\<open>..\<close> and symbolic links are not resolved.
\<close>

type_synonym path = "string list"

fun components :: "string \<Rightarrow> string \<Rightarrow> path" where
  "components cur [] = (if cur = [] then [] else [cur])"
| "components cur (c # cs) =
     (if c = CHR ''/'' then (if cur = [] then components [] cs else cur # components [] cs)
      else components (cur @ [c]) cs)"

definition path_of_string :: "string \<Rightarrow> path" where
  "path_of_string s =
     (case s of
        [] \<Rightarrow> []
      | c # _ \<Rightarrow> if c = CHR ''/'' then ''/'' # components [] s else components [] s)"

definition is_absolute :: "path \<Rightarrow> bool" where
  "is_absolute p = (case p of [] \<Rightarrow> False | c # _ \<Rightarrow> c = ''/'')"

text \<open>\<^verbatim>\<open>operator/\<close>: an absolute right operand replaces the left one.\<close>

definition path_append :: "path \<Rightarrow> path \<Rightarrow> path" where
  "path_append p q = (if is_absolute q then q else p @ q)"

definition filename :: "path \<Rightarrow> string" where
  "filename p = (if p = [] \<or> last p = ''/'' then [] else last p)"

text \<open>
  \<^verbatim>\<open>path::stem\<close> and \<^verbatim>\<open>path::extension\<close> (C++17): a file name that is \<^verbatim>\<open>.\<close> or \<^verbatim>\<open>..\<close>, or
  has no period other than a leading one, is all stem; otherwise the extension starts at
  the last period.
\<close>

definition no_extension :: "string \<Rightarrow> bool" where
  "no_extension f \<longleftrightarrow> f = ''.'' \<or> f = ''..'' \<or> CHR ''.'' \<notin> set (tl f)"

definition stem_of :: "string \<Rightarrow> string" where
  "stem_of f =
     (if no_extension f then f else rev (tl (dropWhile (\<lambda>c. c \<noteq> CHR ''.'') (rev f))))"

definition extension_of :: "string \<Rightarrow> string" where
  "extension_of f =
     (if no_extension f then [] else CHR ''.'' # rev (takeWhile (\<lambda>c. c \<noteq> CHR ''.'') (rev f)))"

definition stem :: "path \<Rightarrow> string" where
  "stem p = stem_of (filename p)"

definition extension :: "path \<Rightarrow> string" where
  "extension p = extension_of (filename p)"

text \<open>\<^verbatim>\<open>std::to_string(int)\<close>: decimal digits, with a minus sign for a negative value.\<close>

fun digits :: "nat \<Rightarrow> string" where
  "digits n = (if n < 10 then [char_of (48 + n)] else digits (n div 10) @ [char_of (48 + n mod 10)])"

declare digits.simps [simp del]

definition to_string :: "int \<Rightarrow> string" where
  "to_string i = (if i < 0 then CHR ''-'' # digits (nat (- i)) else digits (nat i))"

text \<open>
  The file system maps a path to what is there. \<open>create_directories\<close> creates every missing
  prefix of the path as a directory and leaves existing directories alone; it throws
  \<^verbatim>\<open>filesystem_error\<close> (the value \<open>None\<close>) on the empty path and where a prefix exists and
  is not a directory. \<open>ofstream_write\<close> is \<^verbatim>\<open>std::ofstream ofs(p); ofs << content\<close>: the
  file is created or truncated and the content written; where the open fails (the path is a
  directory, or its parent is not one) the stream is in a failed state and nothing is
  written, without any exception.
\<close>

datatype node = Directory | Regular string

type_synonym filesystem = "path \<rightharpoonup> node"

fun mkdirs :: "filesystem \<Rightarrow> path \<Rightarrow> path \<Rightarrow> filesystem option" where
  "mkdirs fs pre [] = Some fs"
| "mkdirs fs pre (c # cs) =
     (case fs (pre @ [c]) of
        Some (Regular _) \<Rightarrow> None
      | Some Directory \<Rightarrow> mkdirs fs (pre @ [c]) cs
      | None \<Rightarrow> mkdirs (fs(pre @ [c] \<mapsto> Directory)) (pre @ [c]) cs)"

definition create_directories :: "filesystem \<Rightarrow> path \<Rightarrow> filesystem option" where
  "create_directories fs p = (if p = [] then None else mkdirs fs [] p)"

text \<open>The directories \<open>create_directories\<close> visits: the path and what lies above it.\<close>

fun dirs :: "path \<Rightarrow> path \<Rightarrow> path list" where
  "dirs pre [] = []"
| "dirs pre (c # cs) = (pre @ [c]) # dirs (pre @ [c]) cs"

definition ofstream_write :: "filesystem \<Rightarrow> path \<Rightarrow> string \<Rightarrow> filesystem" where
  "ofstream_write fs p content =
     (if p = [] \<or> fs p = Some Directory then fs
      else if butlast p = [] \<or> fs (butlast p) = Some Directory then fs(p \<mapsto> Regular content)
      else fs)"

section \<open>The writer's loop body\<close>

text \<open>
  The body of the loop of \<^verbatim>\<open>writer_thread\<close> for one popped result: \<open>None\<close> is the
  exception thrown by \<^verbatim>\<open>fs::create_directories\<close>.
\<close>

definition page_dir :: "path \<Rightarrow> PageResult \<Rightarrow> path" where
  "page_dir out r = path_append out (path_of_string (pdf_name r @ ''/'' @ to_string (page_id r)))"

definition text_file :: "path \<Rightarrow> PageResult \<Rightarrow> path" where
  "text_file out r = path_append (page_dir out r) (path_of_string ''text_layer.txt'')"

definition write_result :: "path \<Rightarrow> PageResult \<Rightarrow> filesystem \<Rightarrow> filesystem option" where
  "write_result out r fs =
     (case create_directories fs (page_dir out r) of
        None \<Rightarrow> None
      | Some fs' \<Rightarrow> Some (ofstream_write fs' (text_file out r) (text_layer r)))"

section \<open>The pipeline of one document\<close>

text \<open>
  \<^verbatim>\<open>process_pdf\<close> runs the calling thread, \<^verbatim>\<open>thread_count\<close> workers and one writer on
  shared data. The model is an interleaving of atomic steps. A step is one access to
  shared data together with the thread-local computation that follows it:
  \<^item> a worker (the lambda \<^verbatim>\<open>worker\<close>) is about to execute \<^verbatim>\<open>fetch_add\<close>, or holds a
    claimed \<open>page_id\<close> and is about to test it and open the page, or holds a result and is
    about to \<open>push\<close> it, or has left its loop;
  \<^item> the writer (\<^verbatim>\<open>writer_thread\<close>) is about to call \<open>pop\<close>, or holds a popped result and
    is about to write it, or has returned;
  \<^item> the calling thread is in the loop that starts workers (the writer is started when the
    loop ends), in the loop that joins them (\<open>set_finished\<close> is called when it ends), is
    joining the writer, or has returned.
  A thread that waits (in \<open>pop\<close>, in \<open>join\<close>) has no step. An exception that escapes a
  thread calls \<^verbatim>\<open>std::terminate\<close>: the flag \<open>terminated\<close> is set and no thread has a step
  any more. Starting a thread is taken to succeed.

  A \<open>frame\<close> holds the locals of \<^verbatim>\<open>process_pdf\<close> that do not change while the threads
  run; its local \<^verbatim>\<open>pdf_name\<close> is the field \<open>pdf_name_v\<close>, since \<open>pdf_name\<close> is the field
  of \<open>PageResult\<close>, and \<^verbatim>\<open>num_pages\<close> is read off the document. A \<open>pipeline\<close> holds
  what changes: the counter, the queue, the place each thread is at, and the file system.

  The counter \<^verbatim>\<open>std::atomic<int> current_page\<close> and the locals \<^verbatim>\<open>page_id\<close> and
  \<^verbatim>\<open>num_pages\<close> are 32-bit \<^verbatim>\<open>int\<close>s. They are held as integers, and \<open>int32\<close> is the
  value an integer has as an \<^verbatim>\<open>int\<close>: \<^verbatim>\<open>fetch_add(1)\<close> on the atomic wraps around, from
  \<open>2^31 - 1\<close> to \<open>- 2^31\<close>, and the page count that \<^verbatim>\<open>doc->pages()\<close> returns is an
  \<^verbatim>\<open>int\<close>. The loop variable \<^verbatim>\<open>i\<close> of the loop that starts the workers stays at or
  below \<^verbatim>\<open>thread_count\<close>, so its increment never leaves the range of \<^verbatim>\<open>int\<close>.
\<close>

definition int32 :: "int \<Rightarrow> int" where
  "int32 x = (x + 2 ^ 31) mod 2 ^ 32 - 2 ^ 31"

record frame =
  pdf_name_v :: string
  doc :: document
  output_dir :: path
  thread_count :: int

definition num_pages :: "frame \<Rightarrow> int" where
  "num_pages fr = int32 (pages (doc fr))"

datatype worker_pc = W_fetch_add | W_check int | W_push PageResult | W_exited

datatype writer_pc = Wr_pop | Wr_write PageResult | Wr_exited

datatype coordinator_pc = M_spawn int | M_join nat | M_join_writer | M_return

record pipeline =
  current_page :: int
  result_queue :: PageResultQueue
  threads :: "worker_pc list"
  writer :: "writer_pc option"
  coordinator :: coordinator_pc
  files :: filesystem
  terminated :: bool

datatype tid = Main | Worker nat | Writer

datatype event =
    Spawn_worker nat
  | Spawn_writer
  | Join_worker nat
  | Set_finished
  | Join_writer
  | Fetch_add nat int
  | Break nat int
  | Null_page nat int
  | Process_page nat PageResult
  | Push nat PageResult
  | Pop_true PageResult
  | Pop_false
  | Write PageResult
  | Throw PageResult

definition worker :: "frame \<Rightarrow> nat \<Rightarrow> pipeline \<Rightarrow> (event \<times> pipeline) option" where
  "worker fr w s =
     (if length (threads s) \<le> w then None
      else case threads s ! w of
        W_fetch_add \<Rightarrow>
          Some (Fetch_add w (current_page s),
                s\<lparr>current_page := int32 (current_page s + 1),
                  threads := (threads s)[w := W_check (current_page s)]\<rparr>)
      | W_check i \<Rightarrow>
          if i \<ge> num_pages fr then Some (Break w i, s\<lparr>threads := (threads s)[w := W_exited]\<rparr>)
          else (case create_page (doc fr) i of
                  None \<Rightarrow> Some (Null_page w i, s\<lparr>threads := (threads s)[w := W_fetch_add]\<rparr>)
                | Some p \<Rightarrow>
                    Some (Process_page w (process_page (Some p) (pdf_name_v fr) i),
                          s\<lparr>threads := (threads s)
                               [w := W_push (process_page (Some p) (pdf_name_v fr) i)]\<rparr>))
      | W_push r \<Rightarrow>
          Some (Push w r,
                s\<lparr>result_queue := push (result_queue s) r,
                  threads := (threads s)[w := W_fetch_add]\<rparr>)
      | W_exited \<Rightarrow> None)"

definition writer_thread :: "frame \<Rightarrow> pipeline \<Rightarrow> (event \<times> pipeline) option" where
  "writer_thread fr s =
     (case writer s of
        None \<Rightarrow> None
      | Some Wr_pop \<Rightarrow>
          (case pop (result_queue s) of
             None \<Rightarrow> None
           | Some (None, q) \<Rightarrow> Some (Pop_false, s\<lparr>result_queue := q, writer := Some Wr_exited\<rparr>)
           | Some (Some r, q) \<Rightarrow>
               Some (Pop_true r, s\<lparr>result_queue := q, writer := Some (Wr_write r)\<rparr>))
      | Some (Wr_write r) \<Rightarrow>
          (case write_result (output_dir fr) r (files s) of
             None \<Rightarrow> Some (Throw r, s\<lparr>terminated := True\<rparr>)
           | Some fs \<Rightarrow> Some (Write r, s\<lparr>files := fs, writer := Some Wr_pop\<rparr>))
      | Some Wr_exited \<Rightarrow> None)"

definition coordinate :: "frame \<Rightarrow> pipeline \<Rightarrow> (event \<times> pipeline) option" where
  "coordinate fr s =
     (case coordinator s of
        M_spawn i \<Rightarrow>
          if i < thread_count fr
          then Some (Spawn_worker (length (threads s)),
                     s\<lparr>threads := threads s @ [W_fetch_add], coordinator := M_spawn (i + 1)\<rparr>)
          else Some (Spawn_writer, s\<lparr>writer := Some Wr_pop, coordinator := M_join 0\<rparr>)
      | M_join k \<Rightarrow>
          if k < length (threads s)
          then (if threads s ! k = W_exited
                then Some (Join_worker k, s\<lparr>coordinator := M_join (Suc k)\<rparr>)
                else None)
          else Some (Set_finished,
                     s\<lparr>result_queue := set_finished (result_queue s),
                       coordinator := M_join_writer\<rparr>)
      | M_join_writer \<Rightarrow>
          if writer s = Some Wr_exited then Some (Join_writer, s\<lparr>coordinator := M_return\<rparr>)
          else None
      | M_return \<Rightarrow> None)"

definition step :: "frame \<Rightarrow> pipeline \<Rightarrow> tid \<Rightarrow> (event \<times> pipeline) option" where
  "step fr s t =
     (if terminated s then None
      else case t of
        Main \<Rightarrow> coordinate fr s
      | Worker w \<Rightarrow> worker fr w s
      | Writer \<Rightarrow> writer_thread fr s)"

definition init :: "filesystem \<Rightarrow> pipeline" where
  "init fs =
     \<lparr>current_page = 0, result_queue = empty_queue, threads = [], writer = None,
      coordinator = M_spawn 0, files = fs, terminated = False\<rparr>"

text \<open>
  An execution is driven by a schedule, the list of the threads chosen in turn; a thread
  chosen while it has no step is passed over. The events of the steps taken are collected
  beside the state.
\<close>

type_synonym config = "pipeline \<times> event list"

definition step_ev :: "frame \<Rightarrow> config \<Rightarrow> tid \<Rightarrow> config" where
  "step_ev fr x t =
     (case step fr (fst x) t of
        None \<Rightarrow> x
      | Some (e, s') \<Rightarrow> (s', snd x @ [e]))"

definition exec :: "frame \<Rightarrow> tid list \<Rightarrow> config \<Rightarrow> config" where
  "exec fr sched x = foldl (step_ev fr) x sched"

section \<open>Running the pipeline to completion\<close>

text \<open>
  The \<open>budget\<close> of a state: five units for each page not yet claimed, two for each queued
  result, and for each thread what it can still do without a new claim. As long as the
  counter does not wrap around (\<open>room\<close>), every step uses up some of the budget, which
  then bounds the number of steps of an execution.

  When the counter wraps around, the number of pages not yet claimed goes up again, by less
  than \<open>2^32\<close>. This happens only at a \<^verbatim>\<open>fetch_add\<close> that returns \<open>2^31 - 1\<close>, an index
  that is not below the page count and so ends the loop of the worker that claimed it. The
  \<open>effort\<close> of a state adds \<open>5 * 2^32\<close> units for each worker that has not yet claimed
  an index at or beyond the page count. It goes down at every step whatever the counter
  does, and is the termination measure of \<open>complete\<close> below.
\<close>

fun worker_budget :: "frame \<Rightarrow> worker_pc \<Rightarrow> nat" where
  "worker_budget fr W_fetch_add = 2"
| "worker_budget fr (W_check i) = (if i < num_pages fr then 6 else 1)"
| "worker_budget fr (W_push r) = 5"
| "worker_budget fr W_exited = 0"

fun writer_budget :: "writer_pc option \<Rightarrow> nat" where
  "writer_budget None = 0"
| "writer_budget (Some Wr_pop) = 1"
| "writer_budget (Some (Wr_write r)) = 2"
| "writer_budget (Some Wr_exited) = 0"

fun coordinator_budget :: "frame \<Rightarrow> nat \<Rightarrow> coordinator_pc \<Rightarrow> nat" where
  "coordinator_budget fr n (M_spawn i) = 4 * nat (thread_count fr - i) + n + 4"
| "coordinator_budget fr n (M_join k) = (n - k) + 2"
| "coordinator_budget fr n M_join_writer = 1"
| "coordinator_budget fr n M_return = 0"

definition budget :: "frame \<Rightarrow> pipeline \<Rightarrow> nat" where
  "budget fr s =
     (if terminated s then 0
      else 1 + 5 * nat (num_pages fr - current_page s)
             + 2 * length (queue (result_queue s))
             + sum_list (map (worker_budget fr) (threads s))
             + writer_budget (writer s)
             + coordinator_budget fr (length (threads s)) (coordinator s))"

definition room :: "pipeline \<Rightarrow> bool" where
  "room s \<longleftrightarrow>
     (W_fetch_add \<in> set (threads s) \<longrightarrow> int32 (current_page s + 1) = current_page s + 1)"

fun claiming :: "frame \<Rightarrow> worker_pc \<Rightarrow> nat" where
  "claiming fr W_fetch_add = 1"
| "claiming fr (W_check i) = (if i < num_pages fr then 1 else 0)"
| "claiming fr (W_push r) = 1"
| "claiming fr W_exited = 0"

fun unstarted :: "frame \<Rightarrow> coordinator_pc \<Rightarrow> nat" where
  "unstarted fr (M_spawn i) = nat (thread_count fr - i)"
| "unstarted fr (M_join k) = 0"
| "unstarted fr M_join_writer = 0"
| "unstarted fr M_return = 0"

definition effort :: "frame \<Rightarrow> pipeline \<Rightarrow> nat" where
  "effort fr s =
     5 * 2 ^ 32 * (unstarted fr (coordinator s) + sum_list (map (claiming fr) (threads s)))
       + budget fr s"

lemma int32_range: "- (2 ^ 31) \<le> int32 x \<and> int32 x \<le> 2 ^ 31 - 1"
proof -
  have "0 \<le> (x + 2 ^ 31) mod 2 ^ 32" "(x + 2 ^ 31) mod 2 ^ 32 < 2 ^ 32"
    by simp_all
  then show ?thesis by (simp add: int32_def)
qed

lemma int32_id: "- (2 ^ 31) \<le> x \<Longrightarrow> x \<le> 2 ^ 31 - 1 \<Longrightarrow> int32 x = x"
  by (simp add: int32_def)

lemma num_pages_range: "- (2 ^ 31) \<le> num_pages fr \<and> num_pages fr \<le> 2 ^ 31 - 1"
  unfolding num_pages_def by (rule int32_range)

lemma int32_succ_ge:
  assumes "c < P" "P \<le> 2 ^ 31 - 1"
  shows "c + 1 \<le> int32 (c + 1)"
proof (cases "- (2 ^ 31) \<le> c + 1")
  case True
  with assms have "int32 (c + 1) = c + 1" by (intro int32_id) simp_all
  then show ?thesis by simp
next
  case False
  with int32_range [of "c + 1"] show ?thesis by simp
qed

lemma sum_list_map_update:
  "w < length xs \<Longrightarrow>
     sum_list (map f (xs[w := y])) + f (xs ! w) = sum_list (map f xs) + (f y :: nat)"
  by (induction xs arbitrary: w) (auto split: nat.splits)

lemma worker_budget_decreases:
  assumes "worker fr w s = Some (e, s')" "\<not> terminated s" "room s"
  shows "budget fr s' < budget fr s"
proof -
  from assms(1) have w: "w < length (threads s)"
    by (auto simp: worker_def split: if_splits)
  note upd = sum_list_map_update [OF w, of "worker_budget fr"]
  show ?thesis
  proof (cases "threads s ! w")
    case W_fetch_add
    with w have "W_fetch_add \<in> set (threads s)" by (metis nth_mem)
    with assms(3) have r: "int32 (current_page s + 1) = current_page s + 1"
      by (simp add: room_def)
    have "current_page s < num_pages fr \<Longrightarrow>
            Suc (nat (num_pages fr - (current_page s + 1))) = nat (num_pages fr - current_page s)"
      by linarith
    with W_fetch_add assms w upd [of "W_check (current_page s)"] show ?thesis
      by (auto simp: worker_def budget_def r split: if_splits)
  next
    case (W_check i)
    with assms w upd [of W_exited] upd [of W_fetch_add]
      upd [of "W_push (process_page (create_page (doc fr) i) (pdf_name_v fr) i)"]
    show ?thesis
      by (auto simp: worker_def budget_def split: if_splits option.splits)
  next
    case (W_push r)
    with assms w upd [of W_fetch_add] show ?thesis
      by (auto simp: worker_def budget_def push_def)
  next
    case W_exited
    with assms w show ?thesis by (auto simp: worker_def)
  qed
qed

lemma writer_budget_decreases:
  assumes "writer_thread fr s = Some (e, s')" "\<not> terminated s"
  shows "budget fr s' < budget fr s"
  using assms
  by (auto simp: writer_thread_def budget_def pop_def
           split: option.splits writer_pc.splits if_splits list.splits)

lemma writer_budget_le: "writer_budget (Some Wr_pop) \<le> Suc (writer_budget w)"
  by (cases w rule: writer_budget.cases) auto

lemma coordinate_budget_decreases:
  assumes "coordinate fr s = Some (e, s')" "\<not> terminated s"
  shows "budget fr s' < budget fr s"
proof (cases "coordinator s")
  case (M_spawn i)
  with assms writer_budget_le [of "writer s"] show ?thesis
    by (auto simp: coordinate_def budget_def split: if_splits)
next
  case (M_join k)
  with assms show ?thesis
    by (auto simp: coordinate_def budget_def set_finished_def split: if_splits)
next
  case M_join_writer
  with assms show ?thesis
    by (auto simp: coordinate_def budget_def split: if_splits)
next
  case M_return
  with assms show ?thesis by (auto simp: coordinate_def)
qed

lemma step_budget_decreases:
  "step fr s t = Some (e, s') \<Longrightarrow> room s \<Longrightarrow> budget fr s' < budget fr s"
  by (cases t)
     (auto simp: step_def worker_budget_decreases writer_budget_decreases
                 coordinate_budget_decreases split: if_splits)

lemma worker_effort_decreases:
  assumes "worker fr w s = Some (e, s')" "\<not> terminated s"
  shows "effort fr s' < effort fr s"
proof -
  from assms(1) have w: "w < length (threads s)"
    by (auto simp: worker_def split: if_splits)
  note upd = sum_list_map_update [OF w, of "worker_budget fr"]
  note cl = sum_list_map_update [OF w, of "claiming fr"]
  show ?thesis
  proof (cases "threads s ! w")
    case W_fetch_add
    let ?c = "current_page s"
    let ?P = "num_pages fr"
    let ?ts = "(threads s)[w := W_check ?c]"
    from W_fetch_add assms(1) w
    have s': "s' = s\<lparr>current_page := int32 (?c + 1), threads := ?ts\<rparr>"
      by (simp add: worker_def)
    show ?thesis
    proof (cases "?c < ?P")
      case True
      have "?c + 1 \<le> int32 (?c + 1)"
        using True num_pages_range [of fr] by (intro int32_succ_ge [of ?c ?P]) simp_all
      with True have n: "nat (?P - int32 (?c + 1)) + 1 \<le> nat (?P - ?c)" by linarith
      from upd [of "W_check ?c"] W_fetch_add True
      have b: "sum_list (map (worker_budget fr) ?ts) + 2
                 = sum_list (map (worker_budget fr) (threads s)) + 6"
        by simp
      from cl [of "W_check ?c"] W_fetch_add True
      have c: "sum_list (map (claiming fr) ?ts) = sum_list (map (claiming fr) (threads s))"
        by simp
      from n b assms(2) have "budget fr s' < budget fr s"
        by (simp add: s' budget_def)
      then show ?thesis by (simp add: effort_def s' c)
    next
      case False
      have "?P - int32 (?c + 1) \<le> 2 ^ 32 - 1"
        using int32_range [of "?c + 1"] num_pages_range [of fr] by auto
      then have "nat (?P - int32 (?c + 1)) \<le> 2 ^ 32 - 1" by simp
      then have n: "5 * nat (?P - int32 (?c + 1)) + 5 \<le> 5 * 2 ^ 32" by simp
      from False have z: "nat (?P - ?c) = 0" by simp
      from upd [of "W_check ?c"] W_fetch_add False
      have b: "sum_list (map (worker_budget fr) ?ts) + 2
                 = sum_list (map (worker_budget fr) (threads s)) + 1"
        by simp
      from cl [of "W_check ?c"] W_fetch_add False
      have c: "sum_list (map (claiming fr) ?ts) + 1 = sum_list (map (claiming fr) (threads s))"
        by simp
      from n b z assms(2) have "budget fr s' + 5 \<le> budget fr s + 5 * 2 ^ 32"
        by (simp add: s' budget_def)
      moreover have "5 * 2 ^ 32 * (unstarted fr (coordinator s) + sum_list (map (claiming fr) ?ts))
            + 5 * 2 ^ 32
          = 5 * 2 ^ 32 * (unstarted fr (coordinator s) + sum_list (map (claiming fr) (threads s)))"
        unfolding c [symmetric] by simp
      ultimately show ?thesis by (simp add: effort_def s')
    qed
  next
    case (W_check i)
    let ?r = "process_page (create_page (doc fr) i) (pdf_name_v fr) i"
    from W_check assms w upd [of W_exited] upd [of W_fetch_add] upd [of "W_push ?r"]
    have b: "budget fr s' < budget fr s"
      by (auto simp: worker_def budget_def split: if_splits option.splits)
    from W_check assms w cl [of W_exited] cl [of W_fetch_add] cl [of "W_push ?r"]
    have "sum_list (map (claiming fr) (threads s')) = sum_list (map (claiming fr) (threads s))"
      and "coordinator s' = coordinator s"
      by (auto simp: worker_def split: if_splits option.splits)
    with b show ?thesis by (simp add: effort_def)
  next
    case (W_push r)
    from W_push assms w upd [of W_fetch_add]
    have b: "budget fr s' < budget fr s"
      by (auto simp: worker_def budget_def push_def)
    from W_push assms w cl [of W_fetch_add]
    have "sum_list (map (claiming fr) (threads s')) = sum_list (map (claiming fr) (threads s))"
      and "coordinator s' = coordinator s"
      by (auto simp: worker_def)
    with b show ?thesis by (simp add: effort_def)
  next
    case W_exited
    with assms w show ?thesis by (auto simp: worker_def)
  qed
qed

lemma writer_effort_decreases:
  assumes "writer_thread fr s = Some (e, s')" "\<not> terminated s"
  shows "effort fr s' < effort fr s"
proof -
  from assms(1) have "threads s' = threads s" "coordinator s' = coordinator s"
    by (auto simp: writer_thread_def pop_def
             split: option.splits writer_pc.splits if_splits list.splits)
  with writer_budget_decreases [OF assms] show ?thesis by (simp add: effort_def)
qed

lemma coordinate_effort_decreases:
  assumes "coordinate fr s = Some (e, s')" "\<not> terminated s"
  shows "effort fr s' < effort fr s"
proof -
  have "unstarted fr (coordinator s') + sum_list (map (claiming fr) (threads s'))
          = unstarted fr (coordinator s) + sum_list (map (claiming fr) (threads s))"
  proof (cases "coordinator s")
    case (M_spawn i)
    have "i < thread_count fr \<Longrightarrow> Suc (nat (thread_count fr - (i + 1))) = nat (thread_count fr - i)"
      by linarith
    with M_spawn assms(1) show ?thesis
      by (auto simp: coordinate_def split: if_splits)
  next
    case (M_join k)
    with assms(1) show ?thesis by (auto simp: coordinate_def split: if_splits)
  next
    case M_join_writer
    with assms(1) show ?thesis by (auto simp: coordinate_def split: if_splits)
  next
    case M_return
    with assms(1) show ?thesis by (auto simp: coordinate_def)
  qed
  with coordinate_budget_decreases [OF assms] show ?thesis by (simp add: effort_def)
qed

lemma step_effort_decreases: "step fr s t = Some (e, s') \<Longrightarrow> effort fr s' < effort fr s"
  by (cases t)
     (auto simp: step_def worker_effort_decreases writer_effort_decreases
                 coordinate_effort_decreases split: if_splits)

text \<open>
  When the schedule is used up, \<open>complete\<close> lets the threads run on, always the first
  one that has a step (the calling thread, then the workers in order, then the writer),
  until no thread has a step. Every execution that is carried through to such a state is
  \<open>exec\<close> of its own schedule, which \<open>complete\<close> leaves as it is; so what holds of
  \<open>run\<close> for every schedule holds of every complete execution of the pipeline.
\<close>

definition enabled :: "frame \<Rightarrow> pipeline \<Rightarrow> tid \<Rightarrow> bool" where
  "enabled fr s t \<longleftrightarrow> step fr s t \<noteq> None"

definition pick :: "frame \<Rightarrow> pipeline \<Rightarrow> tid option" where
  "pick fr s = find (enabled fr s) (Main # map Worker [0..<length (threads s)] @ [Writer])"

lemma pick_enabled: "pick fr s = Some t \<Longrightarrow> enabled fr s t"
  unfolding pick_def find_Some_iff by blast

function complete :: "frame \<Rightarrow> config \<Rightarrow> config" where
  "complete fr x =
     (case pick fr (fst x) of
        None \<Rightarrow> x
      | Some t \<Rightarrow> complete fr (step_ev fr x t))"
  by pat_completeness auto
termination
proof (relation "measure (\<lambda>(fr, x). effort fr (fst x))")
  show "wf (measure (\<lambda>(fr, x). effort fr (fst x)))" by simp
next
  fix fr :: frame and x :: config and t
  assume "pick fr (fst x) = Some t"
  then obtain e s' where "step fr (fst x) t = Some (e, s')"
    using pick_enabled [of fr "fst x" t] by (auto simp: enabled_def)
  then show "((fr, step_ev fr x t), (fr, x)) \<in> measure (\<lambda>(fr, x). effort fr (fst x))"
    by (simp add: step_ev_def step_effort_decreases)
qed

definition run :: "frame \<Rightarrow> tid list \<Rightarrow> filesystem \<Rightarrow> config" where
  "run fr sched fs = complete fr (exec fr sched (init fs, []))"

section \<open>One document, the directory, the program\<close>

text \<open>
  The world of the program is the file system and what has been printed on \<^verbatim>\<open>std::cerr\<close>.
  The environment supplies what the program reads but does not own: the document engine's
  \<^verbatim>\<open>load_from_file\<close> (no document where the file cannot be opened), the entries a
  \<^verbatim>\<open>directory_iterator\<close> yields, each with its file name and whether it is a regular file,
  and \<open>status_error\<close>, the paths for which the operating system answers a status query
  with an error other than ``not found'' (a name that is too long, a directory that may not
  be searched, too many symbolic links).

  \<^verbatim>\<open>fs::exists(p)\<close> and \<^verbatim>\<open>fs::is_directory(p)\<close> are the overloads without an
  \<^verbatim>\<open>error_code\<close>: they query the status of \<open>p\<close> and throw \<^verbatim>\<open>filesystem_error\<close> (the
  value \<open>None\<close>) where the query fails; a path that is not found, the empty path among
  them, has a status, and is neither there nor a directory. The exceptions modelled are
  those of \<^verbatim>\<open>std::stoi\<close>, of the two status queries of \<open>main\<close> and of
  \<^verbatim>\<open>fs::create_directories\<close>; none is caught anywhere in the program, so each ends the
  process in \<^verbatim>\<open>std::terminate\<close>.

  \<open>process_pdf\<close> returns the events of its threads next to the new world. The third
  outcome, \<open>Never_returns\<close>, stands for a pipeline that is stuck with the calling thread
  still inside \<^verbatim>\<open>process_pdf\<close>; lemma \<open>run_final\<close> shows that it does not occur.
\<close>

datatype diagnostic = Usage string | Input_directory_invalid | Failed_to_open_PDF path

record world =
  disk :: filesystem
  cerr :: "diagnostic list"

record directory_entry =
  entry_name :: string
  is_regular_file :: bool

record environment =
  load_from_file :: "path \<Rightarrow> document option"
  directory_iterator :: "path \<Rightarrow> directory_entry list"
  status_error :: "path \<Rightarrow> bool"

datatype failure = Uncaught_exception | Never_returns

definition status :: "environment \<Rightarrow> filesystem \<Rightarrow> path \<Rightarrow> node option option" where
  "status env fs p =
     (if status_error env p then None else if p = [] then Some None else Some (fs p))"

definition exists :: "environment \<Rightarrow> filesystem \<Rightarrow> path \<Rightarrow> bool option" where
  "exists env fs p =
     (case status env fs p of None \<Rightarrow> None | Some st \<Rightarrow> Some (st \<noteq> None))"

definition is_directory :: "environment \<Rightarrow> filesystem \<Rightarrow> path \<Rightarrow> bool option" where
  "is_directory env fs p =
     (case status env fs p of None \<Rightarrow> None | Some st \<Rightarrow> Some (st = Some Directory))"

definition process_pdf ::
  "tid list \<Rightarrow> environment \<Rightarrow> path \<Rightarrow> path \<Rightarrow> int \<Rightarrow> world \<Rightarrow> failure + (event list \<times> world)" where
  "process_pdf sched env pdf_path out n w =
     (case load_from_file env pdf_path of
        None \<Rightarrow> Inr ([], w\<lparr>cerr := cerr w @ [Failed_to_open_PDF pdf_path]\<rparr>)
      | Some d \<Rightarrow>
          (case run \<lparr>pdf_name_v = stem pdf_path, doc = d, output_dir = out, thread_count = n\<rparr>
                    sched (disk w) of
             (s, tr) \<Rightarrow>
               if terminated s then Inl Uncaught_exception
               else if coordinator s = M_return then Inr (tr, w\<lparr>disk := files s\<rparr>)
               else Inl Never_returns))"

fun process_entries ::
  "(path \<Rightarrow> tid list) \<Rightarrow> environment \<Rightarrow> path \<Rightarrow> path \<Rightarrow> int \<Rightarrow> directory_entry list \<Rightarrow> world
     \<Rightarrow> failure + world" where
  "process_entries sched env input_dir out n [] w = Inr w"
| "process_entries sched env input_dir out n (entry # rest) w =
     (if is_regular_file entry \<and> extension (path_append input_dir [entry_name entry]) = ''.pdf''
      then (case process_pdf (sched (path_append input_dir [entry_name entry])) env
                   (path_append input_dir [entry_name entry]) out n w of
              Inl f \<Rightarrow> Inl f
            | Inr (tr, w') \<Rightarrow> process_entries sched env input_dir out n rest w')
      else process_entries sched env input_dir out n rest w)"

definition process_directory ::
  "(path \<Rightarrow> tid list) \<Rightarrow> environment \<Rightarrow> path \<Rightarrow> path \<Rightarrow> int \<Rightarrow> world \<Rightarrow> failure + world" where
  "process_directory sched env input_dir out n w =
     process_entries sched env input_dir out n (directory_iterator env input_dir) w"

text \<open>
  \<^verbatim>\<open>std::stoi\<close>: leading white space, an optional sign, then decimal digits up to the
  first other character; \<^verbatim>\<open>invalid_argument\<close> without a digit and \<^verbatim>\<open>out_of_range\<close>
  outside the range of \<^verbatim>\<open>int\<close> are both the value \<open>None\<close>. White space is that of
  the C locale.
\<close>

definition isspace :: "char \<Rightarrow> bool" where
  "isspace c \<longleftrightarrow> c = CHR '' '' \<or> (9 \<le> (of_char c :: nat) \<and> (of_char c :: nat) \<le> 13)"

definition isdigit :: "char \<Rightarrow> bool" where
  "isdigit c \<longleftrightarrow> 48 \<le> (of_char c :: nat) \<and> (of_char c :: nat) \<le> 57"

definition stoi :: "string \<Rightarrow> int option" where
  "stoi str =
     (let s = dropWhile isspace str;
          negative = (s \<noteq> [] \<and> hd s = CHR ''-'');
          s = (if s \<noteq> [] \<and> (hd s = CHR ''-'' \<or> hd s = CHR ''+'') then tl s else s);
          ds = takeWhile isdigit s;
          v = foldl (\<lambda>a c. 10 * a + (of_char c - 48)) 0 ds;
          v = (if negative then - v else v)
      in if ds = [] then None
         else if v < - (2 ^ 31) \<or> 2 ^ 31 - 1 < v then None
         else Some v)"

definition main ::
  "string list \<Rightarrow> environment \<Rightarrow> (path \<Rightarrow> tid list) \<Rightarrow> world \<Rightarrow> failure + (int \<times> world)" where
  "main argv env sched w =
     (if length argv < 4 then Inr (1, w\<lparr>cerr := cerr w @ [Usage (concat (take 1 argv))]\<rparr>)
      else case stoi (argv ! 3) of
        None \<Rightarrow> Inl Uncaught_exception
      | Some n \<Rightarrow>
          (case exists env (disk w) (path_of_string (argv ! 1)) of
             None \<Rightarrow> Inl Uncaught_exception
           | Some e \<Rightarrow>
               if \<not> e then Inr (1, w\<lparr>cerr := cerr w @ [Input_directory_invalid]\<rparr>)
               else (case is_directory env (disk w) (path_of_string (argv ! 1)) of
                  None \<Rightarrow> Inl Uncaught_exception
                | Some d \<Rightarrow>
                    if \<not> d then Inr (1, w\<lparr>cerr := cerr w @ [Input_directory_invalid]\<rparr>)
                    else (case create_directories (disk w) (path_of_string (argv ! 2)) of
                       None \<Rightarrow> Inl Uncaught_exception
                     | Some fs \<Rightarrow>
                         (case process_directory sched env (path_of_string (argv ! 1))
                                 (path_of_string (argv ! 2)) n (w\<lparr>disk := fs\<rparr>) of
                            Inl f \<Rightarrow> Inl f
                          | Inr w' \<Rightarrow> Inr (0, w'))))))"

text \<open>
  The documents the directory loop hands to \<^verbatim>\<open>process_pdf\<close>, said directly: the entries
  that are regular files and whose name ends in an extension equal to \<^verbatim>\<open>.pdf\<close>, in the
  order of the listing. \<open>process_documents\<close> processes a list of documents in turn.
\<close>

definition selected :: "path \<Rightarrow> directory_entry list \<Rightarrow> path list" where
  "selected input_dir entries =
     map (\<lambda>e. input_dir @ [entry_name e])
       (filter (\<lambda>e. is_regular_file e \<and> extension_of (entry_name e) = ''.pdf'') entries)"

fun process_documents ::
  "(path \<Rightarrow> tid list) \<Rightarrow> environment \<Rightarrow> path \<Rightarrow> int \<Rightarrow> path list \<Rightarrow> world \<Rightarrow> failure + world" where
  "process_documents sched env out n [] w = Inr w"
| "process_documents sched env out n (p # ps) w =
     (case process_pdf (sched p) env p out n w of
        Inl f \<Rightarrow> Inl f
      | Inr (tr, w') \<Rightarrow> process_documents sched env out n ps w')"

text \<open>The exit code of a run of \<open>main\<close>; none when \<^verbatim>\<open>std::terminate\<close> ended the process.\<close>

definition exit_code :: "failure + (int \<times> world) \<Rightarrow> int option" where
  "exit_code r = (case r of Inl f \<Rightarrow> None | Inr (code, w) \<Rightarrow> Some code)"

section \<open>What a trace records, and the invariants of the pipeline\<close>

text \<open>
  The projections of a trace: the claims \<open>(worker, page_id)\<close> in the order of the
  \<^verbatim>\<open>fetch_add\<close> calls, and the results pushed, popped and written, each in order.
\<close>

fun claim_of :: "event \<Rightarrow> (nat \<times> int) list" where
  "claim_of (Fetch_add w i) = [(w, i)]"
| "claim_of _ = []"

fun push_of :: "event \<Rightarrow> PageResult list" where
  "push_of (Push w r) = [r]"
| "push_of _ = []"

fun pop_of :: "event \<Rightarrow> PageResult list" where
  "pop_of (Pop_true r) = [r]"
| "pop_of _ = []"

fun write_of :: "event \<Rightarrow> PageResult list" where
  "write_of (Write r) = [r]"
| "write_of _ = []"

definition claimed :: "event list \<Rightarrow> (nat \<times> int) list" where
  "claimed tr = concat (map claim_of tr)"

definition pushed :: "event list \<Rightarrow> PageResult list" where
  "pushed tr = concat (map push_of tr)"

definition popped :: "event list \<Rightarrow> PageResult list" where
  "popped tr = concat (map pop_of tr)"

definition written :: "event list \<Rightarrow> PageResult list" where
  "written tr = concat (map write_of tr)"

text \<open>
  A page index \<open>opens\<close> when it is below the page count and \<^verbatim>\<open>create_page\<close> yields a
  page. A result is \<open>made\<close> of a page when it is what \<open>process_page\<close> makes of the page
  at its own index, a page that opens; it is \<open>genuine\<close> when that index is not negative.
  \<open>holding\<close> lists the index a worker has claimed and will still push.
\<close>

definition opens :: "frame \<Rightarrow> int \<Rightarrow> bool" where
  "opens fr i \<longleftrightarrow> i < num_pages fr \<and> create_page (doc fr) i \<noteq> None"

definition made :: "frame \<Rightarrow> PageResult \<Rightarrow> bool" where
  "made fr r \<longleftrightarrow>
     opens fr (page_id r) \<and>
     r = process_page (create_page (doc fr) (page_id r)) (pdf_name_v fr) (page_id r)"

definition genuine :: "frame \<Rightarrow> PageResult \<Rightarrow> bool" where
  "genuine fr r \<longleftrightarrow> 0 \<le> page_id r \<and> made fr r"

fun holding :: "frame \<Rightarrow> worker_pc \<Rightarrow> int list" where
  "holding fr (W_check i) = (if opens fr i then [i] else [])"
| "holding fr (W_push r) = [page_id r]"
| "holding fr W_fetch_add = []"
| "holding fr W_exited = []"

fun worker_ok :: "frame \<Rightarrow> int \<Rightarrow> worker_pc \<Rightarrow> bool" where
  "worker_ok fr c W_fetch_add = True"
| "worker_ok fr c (W_check i) = (0 \<le> i \<and> i < c)"
| "worker_ok fr c (W_push r) = genuine fr r"
| "worker_ok fr c W_exited = (num_pages fr < c)"

fun in_hand :: "writer_pc option \<Rightarrow> PageResult list" where
  "in_hand (Some (Wr_write r)) = [r]"
| "in_hand _ = []"

fun write_all :: "path \<Rightarrow> PageResult list \<Rightarrow> filesystem \<Rightarrow> filesystem option" where
  "write_all out [] fs = Some fs"
| "write_all out (r # rs) fs =
     (case write_result out r fs of None \<Rightarrow> None | Some fs' \<Rightarrow> write_all out rs fs')"

text \<open>
  \<open>claims\<close> is the number of indices handed out so far. The counter is that number as an
  \<^verbatim>\<open>int\<close> (\<open>count_inv\<close>), and equal to it as long as it is at most \<open>2^31 - 1\<close>.
\<close>

definition claims :: "event list \<Rightarrow> int" where
  "claims tr = int (length (claimed tr))"

definition count_inv :: "config \<Rightarrow> bool" where
  "count_inv x \<longleftrightarrow> current_page (fst x) = int32 (claims (snd x))"

definition in_range :: "config \<Rightarrow> bool" where
  "in_range x \<longleftrightarrow>
     (W_fetch_add \<in> set (threads (fst x)) \<longrightarrow> current_page (fst x) = claims (snd x))"

definition claims_inv :: "config \<Rightarrow> bool" where
  "claims_inv x \<longleftrightarrow> map snd (claimed (snd x)) = [0..claims (snd x) - 1]"

definition workers_inv :: "frame \<Rightarrow> config \<Rightarrow> bool" where
  "workers_inv fr x \<longleftrightarrow>
     (\<forall>pc \<in> set (threads (fst x)). worker_ok fr (claims (snd x)) pc) \<and>
     (\<forall>r \<in> set (pushed (snd x)). genuine fr r)"

text \<open>
  The indices pushed and those still held are, up to order, the claimed indices that open.
\<close>

definition pages_inv :: "frame \<Rightarrow> config \<Rightarrow> bool" where
  "pages_inv fr x \<longleftrightarrow>
     mset (map page_id (pushed (snd x))) + mset (concat (map (holding fr) (threads (fst x))))
       = mset (filter (opens fr) (map snd (claimed (snd x))))"

definition fifo_inv :: "config \<Rightarrow> bool" where
  "fifo_inv x \<longleftrightarrow>
     pushed (snd x) = popped (snd x) @ queue (result_queue (fst x)) \<and>
     popped (snd x) = written (snd x) @ in_hand (writer (fst x))"

definition files_inv :: "frame \<Rightarrow> filesystem \<Rightarrow> config \<Rightarrow> bool" where
  "files_inv fr fs0 x \<longleftrightarrow> write_all (output_dir fr) (written (snd x)) fs0 = Some (files (fst x))"

definition all_exited :: "frame \<Rightarrow> worker_pc list \<Rightarrow> bool" where
  "all_exited fr ws \<longleftrightarrow> length ws = nat (thread_count fr) \<and> (\<forall>pc \<in> set ws. pc = W_exited)"

definition coordinator_inv :: "frame \<Rightarrow> config \<Rightarrow> bool" where
  "coordinator_inv fr x \<longleftrightarrow>
     (case coordinator (fst x) of
        M_spawn i \<Rightarrow>
          0 \<le> i \<and> i \<le> max 0 (thread_count fr) \<and> int (length (threads (fst x))) = i \<and>
          writer (fst x) = None \<and> \<not> finished (result_queue (fst x))
      | M_join k \<Rightarrow>
          length (threads (fst x)) = nat (thread_count fr) \<and> k \<le> length (threads (fst x)) \<and>
          (\<forall>j < k. threads (fst x) ! j = W_exited) \<and>
          writer (fst x) \<noteq> None \<and> \<not> finished (result_queue (fst x))
      | M_join_writer \<Rightarrow>
          all_exited fr (threads (fst x)) \<and> writer (fst x) \<noteq> None \<and> finished (result_queue (fst x))
      | M_return \<Rightarrow>
          all_exited fr (threads (fst x)) \<and> writer (fst x) = Some Wr_exited \<and>
          finished (result_queue (fst x))) \<and>
     (writer (fst x) = Some Wr_exited \<longrightarrow>
        finished (result_queue (fst x)) \<and> queue (result_queue (fst x)) = [])"

text \<open>
  \<open>exit_ok\<close> ties the \<^verbatim>\<open>break\<close> of a worker to its claims: a worker that holds an
  index has claimed it, and a claim at or beyond the page count has either ended the
  worker's loop or is the index the worker holds. \<open>past\<close> counts the workers whose last
  claim was at or beyond the page count.
\<close>

definition exit_ok :: "frame \<Rightarrow> event list \<Rightarrow> nat \<Rightarrow> worker_pc \<Rightarrow> bool" where
  "exit_ok fr tr w pc \<longleftrightarrow>
     (\<forall>i. pc = W_check i \<longrightarrow> (w, i) \<in> set (claimed tr)) \<and>
     (\<forall>i. (w, i) \<in> set (claimed tr) \<and> num_pages fr \<le> i \<longrightarrow>
        Break w i \<in> set tr \<or> pc = W_check i)"

definition exits_inv :: "frame \<Rightarrow> config \<Rightarrow> bool" where
  "exits_inv fr x \<longleftrightarrow>
     (\<forall>w i. Break w i \<in> set (snd x) \<longrightarrow> num_pages fr \<le> i \<and> (w, i) \<in> set (claimed (snd x))) \<and>
     (\<forall>w i. (w, i) \<in> set (claimed (snd x)) \<longrightarrow> w < length (threads (fst x))) \<and>
     (\<forall>w < length (threads (fst x)). exit_ok fr (snd x) w (threads (fst x) ! w))"

fun past :: "frame \<Rightarrow> worker_pc \<Rightarrow> nat" where
  "past fr (W_check i) = (if num_pages fr \<le> i then 1 else 0)"
| "past fr W_exited = 1"
| "past fr W_fetch_add = 0"
| "past fr (W_push r) = 0"

definition bound_inv :: "frame \<Rightarrow> config \<Rightarrow> bool" where
  "bound_inv fr x \<longleftrightarrow>
     claims (snd x)
       \<le> max 0 (num_pages fr) + int (sum_list (map (past fr) (threads (fst x))))"

text \<open>
  The part of a trace before the first \<open>Set_finished\<close>, and the part from it on.
\<close>

definition before_finished :: "event list \<Rightarrow> event list" where
  "before_finished tr = takeWhile (\<lambda>e. e \<noteq> Set_finished) tr"

definition since_finished :: "event list \<Rightarrow> event list" where
  "since_finished tr = dropWhile (\<lambda>e. e \<noteq> Set_finished) tr"

fun joined :: "coordinator_pc \<Rightarrow> nat \<Rightarrow> nat" where
  "joined (M_spawn i) n = 0"
| "joined (M_join k) n = k"
| "joined M_join_writer n = n"
| "joined M_return n = n"

definition order_inv :: "config \<Rightarrow> bool" where
  "order_inv x \<longleftrightarrow>
     (finished (result_queue (fst x)) \<longleftrightarrow> Set_finished \<in> set (snd x)) \<and>
     pushed (since_finished (snd x)) = [] \<and>
     (\<forall>k. Join_worker k \<notin> set (since_finished (snd x))) \<and>
     Join_writer \<notin> set (before_finished (snd x)) \<and>
     Pop_false \<notin> set (before_finished (snd x)) \<and>
     (\<forall>k < joined (coordinator (fst x)) (length (threads (fst x))). Join_worker k \<in> set (snd x)) \<and>
     (coordinator (fst x) = M_return \<longrightarrow> Join_writer \<in> set (snd x)) \<and>
     (writer (fst x) = Some Wr_exited \<longrightarrow> Pop_false \<in> set (snd x))"

definition crash_inv :: "config \<Rightarrow> bool" where
  "crash_inv x \<longleftrightarrow> (terminated (fst x) \<longrightarrow> (\<exists>r. writer (fst x) = Some (Wr_write r)))"

text \<open>
  Without workers (\<open>thread_count \<le> 0\<close>) the pipeline passes through five states only.
\<close>

definition idle_inv :: "frame \<Rightarrow> filesystem \<Rightarrow> config \<Rightarrow> bool" where
  "idle_inv fr fs0 x \<longleftrightarrow>
     (thread_count fr \<le> 0 \<longrightarrow>
        threads (fst x) = [] \<and> current_page (fst x) = 0 \<and> queue (result_queue (fst x)) = [] \<and>
        files (fst x) = fs0 \<and> \<not> terminated (fst x) \<and>
        (coordinator (fst x) = M_spawn 0 \<and> writer (fst x) = None \<and>
           \<not> finished (result_queue (fst x)) \<and> snd x = []
         \<or> coordinator (fst x) = M_join 0 \<and> writer (fst x) = Some Wr_pop \<and>
           \<not> finished (result_queue (fst x)) \<and> snd x = [Spawn_writer]
         \<or> coordinator (fst x) = M_join_writer \<and> writer (fst x) = Some Wr_pop \<and>
           finished (result_queue (fst x)) \<and> snd x = [Spawn_writer, Set_finished]
         \<or> coordinator (fst x) = M_join_writer \<and> writer (fst x) = Some Wr_exited \<and>
           finished (result_queue (fst x)) \<and> snd x = [Spawn_writer, Set_finished, Pop_false]
         \<or> coordinator (fst x) = M_return \<and> writer (fst x) = Some Wr_exited \<and>
           finished (result_queue (fst x)) \<and>
           snd x = [Spawn_writer, Set_finished, Pop_false, Join_writer]))"

text \<open>
  Every result in a worker's hands or pushed is made of a page that opens. The counter is
  an \<^verbatim>\<open>int\<close>. Every index from 0 up to the counter has been claimed, and once an index at
  or beyond the page count has been claimed, every page index has been: the counter reaches
  such an index only by passing through all of them. A worker that has left its loop has
  done so by \<^verbatim>\<open>break\<close>; it was joined after that. Once the writer has been joined, the
  calling thread has returned and \<open>Join_writer\<close> is the last event of the trace and occurs
  nowhere else in it.
\<close>

definition made_inv :: "frame \<Rightarrow> config \<Rightarrow> bool" where
  "made_inv fr x \<longleftrightarrow>
     (\<forall>r. W_push r \<in> set (threads (fst x)) \<longrightarrow> made fr r) \<and>
     (\<forall>r \<in> set (pushed (snd x)). made fr r)"

definition range_inv :: "config \<Rightarrow> bool" where
  "range_inv x \<longleftrightarrow> - (2 ^ 31) \<le> current_page (fst x) \<and> current_page (fst x) \<le> 2 ^ 31 - 1"

definition cover_inv :: "frame \<Rightarrow> config \<Rightarrow> bool" where
  "cover_inv fr x \<longleftrightarrow>
     (\<forall>i. 0 \<le> i \<and> i < current_page (fst x) \<longrightarrow> i \<in> snd ` set (claimed (snd x))) \<and>
     ((\<exists>w i. (w, i) \<in> set (claimed (snd x)) \<and> num_pages fr \<le> i) \<longrightarrow>
        (\<forall>i. 0 \<le> i \<and> i < num_pages fr \<longrightarrow> i \<in> snd ` set (claimed (snd x))))"

definition joins_inv :: "config \<Rightarrow> bool" where
  "joins_inv x \<longleftrightarrow>
     (\<forall>w < length (threads (fst x)).
        threads (fst x) ! w = W_exited \<longrightarrow> (\<exists>i. Break w i \<in> set (snd x))) \<and>
     (\<forall>k. Join_worker k \<in> set (snd x) \<longrightarrow>
        (\<exists>i. Break k i \<in> set (takeWhile (\<lambda>e. e \<noteq> Join_worker k) (snd x)))) \<and>
     (Join_writer \<in> set (snd x) \<longrightarrow>
        coordinator (fst x) = M_return \<and> snd x \<noteq> [] \<and> last (snd x) = Join_writer \<and>
        Join_writer \<notin> set (butlast (snd x)))"

text \<open>
  \<open>shutdown_inv\<close> collects the invariants that hold whatever the counter does: they hold
  in every state the pipeline reaches. \<open>pipeline_inv\<close> adds those that say that the
  indices claimed are \<open>0, 1, 2, \<dots>\<close> without repetition. They hold when the frame
  \<open>fits\<close>: the page count and the number of workers together are at most \<open>2^31\<close>, so
  that no \<^verbatim>\<open>fetch_add\<close> is called after the one that returns \<open>2^31 - 1\<close>. In a frame that
  is \<open>roomy\<close>, with a sum of at most \<open>2^31 - 1\<close>, the counter never wraps around at all.
\<close>

definition shutdown_inv :: "frame \<Rightarrow> filesystem \<Rightarrow> config \<Rightarrow> bool" where
  "shutdown_inv fr fs0 x \<longleftrightarrow>
     fifo_inv x \<and> files_inv fr fs0 x \<and> coordinator_inv fr x \<and> exits_inv fr x \<and>
     order_inv x \<and> crash_inv x \<and> idle_inv fr fs0 x \<and> joins_inv x \<and>
     pages_inv fr x \<and> made_inv fr x \<and> range_inv x \<and> cover_inv fr x"

definition fits :: "frame \<Rightarrow> bool" where
  "fits fr \<longleftrightarrow> max 0 (num_pages fr) + max 0 (thread_count fr) \<le> 2 ^ 31"

definition roomy :: "frame \<Rightarrow> bool" where
  "roomy fr \<longleftrightarrow> max 0 (num_pages fr) + max 0 (thread_count fr) \<le> 2 ^ 31 - 1"

definition pipeline_inv :: "frame \<Rightarrow> filesystem \<Rightarrow> config \<Rightarrow> bool" where
  "pipeline_inv fr fs0 x \<longleftrightarrow>
     shutdown_inv fr fs0 x \<and> count_inv x \<and> claims_inv x \<and> workers_inv fr x \<and> bound_inv fr x"

text \<open>
  The writer throws only where a regular file lies in the way of a directory it has to
  create. \<open>clear_inv\<close> says that no exception has escaped and that every regular file
  lies deeper than the page directories \<^verbatim>\<open>output_dir/pdf_name/page_id\<close>.
\<close>

definition clear_inv :: "frame \<Rightarrow> config \<Rightarrow> bool" where
  "clear_inv fr x \<longleftrightarrow>
     \<not> terminated (fst x) \<and>
     (\<forall>q c. files (fst x) q = Some (Regular c) \<longrightarrow> length (output_dir fr) + 2 < length q)"

section \<open>Concrete inputs\<close>

text \<open>
  The scenario of the specification: the document \<^verbatim>\<open>report\<close> has two pages, \<^verbatim>\<open>Hello\<close>
  and \<^verbatim>\<open>World\<close>. \<open>report_schedule\<close> starts one worker, lets it claim and process
  page 0, starts the second worker, and leaves the rest to \<open>complete\<close>;
  \<open>hello_schedule\<close> starts both workers and the writer and runs worker 0 and the writer
  until the writer holds the result of page 0.
\<close>

definition report_document :: document where
  "report_document =
     \<lparr>pages = 2,
      create_page = (\<lambda>i. if i = 0 then Some (Page ''Hello'')
                         else if i = 1 then Some (Page ''World'') else None)\<rparr>"

definition report_frame :: frame where
  "report_frame =
     \<lparr>pdf_name_v = ''report'', doc = report_document, output_dir = [''out''], thread_count = 2\<rparr>"

definition report_schedule :: "tid list" where
  "report_schedule = [Main, Worker 0, Worker 0, Main, Worker 1, Writer]"



text \<open>
  A document of three pages whose middle page does not open, a schedule for it, and a
  document without pages processed by one worker.
\<close>

definition torn_document :: document where
  "torn_document =
     \<lparr>pages = 3,
      create_page = (\<lambda>i. if i = 0 then Some (Page ''first'')
                         else if i = 2 then Some (Page ''third'') else None)\<rparr>"

definition torn_schedule :: "tid list" where
  "torn_schedule = [Main, Main, Worker 1, Worker 0, Worker 1, Worker 1, Worker 0]"

definition empty_frame :: frame where
  "empty_frame =
     \<lparr>pdf_name_v = ''empty'', doc = \<lparr>pages = 0, create_page = (\<lambda>i. None)\<rparr>,
      output_dir = [''out''], thread_count = 1\<rparr>"

text \<open>
  Environments and worlds: in \<open>torn_environment\<close> only \<^verbatim>\<open>in/torn.pdf\<close> opens and the
  input directory lists nothing; \<open>mixed_environment\<close> lists a document that opens, one
  that does not, an upper-case extension, a directory named like a document, and a text
  file. In both, a status query fails where a component of the path has more than 255
  characters. \<open>input_world\<close> has the directory \<^verbatim>\<open>in\<close> and nothing else;
  \<open>long_name\<close> is a name of 300 letters.
\<close>

definition name_too_long :: "path \<Rightarrow> bool" where
  "name_too_long p \<longleftrightarrow> (\<exists>c \<in> set p. 255 < length c)"

definition long_name :: string where
  "long_name = replicate 300 CHR ''a''"

definition torn_environment :: environment where
  "torn_environment =
     \<lparr>load_from_file = (\<lambda>p. if p = [''in'', ''torn.pdf''] then Some torn_document else None),
      directory_iterator = (\<lambda>p. []),
      status_error = name_too_long\<rparr>"

definition mixed_environment :: environment where
  "mixed_environment =
     \<lparr>load_from_file = (\<lambda>p. if p = [''in'', ''torn.pdf''] then Some torn_document else None),
      directory_iterator =
        (\<lambda>p. if p = [''in'']
              then [\<lparr>entry_name = ''torn.pdf'', is_regular_file = True\<rparr>,
                    \<lparr>entry_name = ''missing.pdf'', is_regular_file = True\<rparr>,
                    \<lparr>entry_name = ''SHOUT.PDF'', is_regular_file = True\<rparr>,
                    \<lparr>entry_name = ''folder.pdf'', is_regular_file = False\<rparr>,
                    \<lparr>entry_name = ''notes.txt'', is_regular_file = True\<rparr>]
              else []),
      status_error = name_too_long\<rparr>"

definition empty_world :: world where
  "empty_world = \<lparr>disk = Map.empty, cerr = []\<rparr>"

definition input_world :: world where
  "input_world = \<lparr>disk = [[''in''] \<mapsto> Directory], cerr = []\<rparr>"

text \<open>
  A document at the end of the range of \<^verbatim>\<open>int\<close>: \<open>big_document\<close> has \<open>2^31 - 1\<close>
  pages, and every index from 0 on opens, with an empty text; a negative index yields no
  page. It is processed by two workers. In \<open>big_schedule\<close> the workers and the writer
  are started, worker 0 claims, processes and pushes the pages \<open>0, \<dots>, 2^31 - 2\<close>, claims
  \<open>2^31 - 1\<close> and ends its loop, and only then worker 1 runs: it claims \<open>2^31\<close> indices
  for which there is no page, and then one more.
\<close>

definition every_page :: "int \<Rightarrow> page option" where
  "every_page i = (if 0 \<le> i then Some (Page []) else None)"

definition big_document :: document where
  "big_document = \<lparr>pages = 2 ^ 31 - 1, create_page = every_page\<rparr>"

definition big_frame :: frame where
  "big_frame =
     \<lparr>pdf_name_v = ''big'', doc = big_document, output_dir = [''out''], thread_count = 2\<rparr>"

definition big_schedule :: "tid list" where
  "big_schedule =
     [Main, Main, Main, Worker 0, Worker 0, Worker 0]
     @ concat (replicate (2 ^ 31 - 2) [Worker 0, Worker 0, Worker 0])
     @ [Worker 0, Worker 0]
     @ concat (replicate (2 ^ 31) [Worker 1, Worker 1])
     @ [Worker 1]"

section \<open>Properties of the result queue\<close>

lemma pop_blocks_iff: "pop q = None \<longleftrightarrow> queue q = [] \<and> \<not> finished q"
  by (auto simp: pop_def split: list.splits)

lemma pop_item: "queue q = r # rest \<Longrightarrow> pop q = Some (Some r, q\<lparr>queue := rest\<rparr>)"
  by (simp add: pop_def)

lemma pop_end: "queue q = [] \<Longrightarrow> finished q \<Longrightarrow> pop q = Some (None, q)"
  by (simp add: pop_def)

lemma pops_end: "queue q = [] \<Longrightarrow> finished q \<Longrightarrow> pops n q = Some (replicate n None)"
  by (induction n) (simp_all add: pop_end)

text \<open>
  C2. \<open>pop\<close> has not returned exactly while the queue is empty and the channel is not marked
  finished. With items queued it returns \<^verbatim>\<open>true\<close> with the oldest item and removes it,
  whether or not the channel is finished. Finished and drained, it returns \<^verbatim>\<open>false\<close> and
  leaves the channel as it is, so any number of further calls return \<^verbatim>\<open>false\<close> too.
\<close>

theorem pop_spec:
  "(pop q = None \<longleftrightarrow> queue q = [] \<and> \<not> finished q) \<and>
   (\<forall>r rest. queue q = r # rest \<longrightarrow> pop q = Some (Some r, q\<lparr>queue := rest\<rparr>)) \<and>
   (queue q = [] \<and> finished q \<longrightarrow>
      pop q = Some (None, q) \<and> (\<forall>n. pops n q = Some (replicate n None)))"
  using pop_blocks_iff pop_item pop_end pops_end by blast

theorem pop_spec_witness:
  "pop \<lparr>queue = [], finished = False\<rparr> = None \<and>
   pop \<lparr>queue = [process_page None ''a'' 0, process_page None ''a'' 1], finished = False\<rparr>
     = Some (Some (process_page None ''a'' 0),
             \<lparr>queue = [process_page None ''a'' 1], finished = False\<rparr>) \<and>
   pop \<lparr>queue = [], finished = True\<rparr> = Some (None, \<lparr>queue = [], finished = True\<rparr>) \<and>
   pops 3 \<lparr>queue = [], finished = True\<rparr> = Some [None, None, None]"
proof -
  have a: "pop \<lparr>queue = [], finished = False\<rparr> = None"
    using pop_spec [of "\<lparr>queue = [], finished = False\<rparr>"] by simp
  have b: "pop \<lparr>queue = [process_page None ''a'' 0, process_page None ''a'' 1], finished = False\<rparr>
     = Some (Some (process_page None ''a'' 0),
             \<lparr>queue = [process_page None ''a'' 1], finished = False\<rparr>)"
    using pop_spec [of "\<lparr>queue = [process_page None ''a'' 0, process_page None ''a'' 1],
                         finished = False\<rparr>"] by simp
  have c: "pop \<lparr>queue = [], finished = True\<rparr> = Some (None, \<lparr>queue = [], finished = True\<rparr>) \<and>
           (\<forall>n. pops n \<lparr>queue = [], finished = True\<rparr> = Some (replicate n None))"
    using pop_spec [of "\<lparr>queue = [], finished = True\<rparr>"] by simp
  from c have d: "pops 3 \<lparr>queue = [], finished = True\<rparr> = Some (replicate 3 None)"
    by blast
  have e: "replicate 3 (None :: PageResult option) = [None, None, None]"
    by (simp add: numeral_3_eq_3)
  from a b c d e show ?thesis by simp
qed

section \<open>Steps of the pipeline, case by case\<close>

lemma coordinate_cases [consumes 1, case_names spawn_worker spawn_writer join_worker set_finished join_writer]:
  assumes "coordinate fr s = Some (e, s')"
  obtains
    i where "coordinator s = M_spawn i" "i < thread_count fr"
      "e = Spawn_worker (length (threads s))"
      "s' = s\<lparr>threads := threads s @ [W_fetch_add], coordinator := M_spawn (i + 1)\<rparr>"
  | i where "coordinator s = M_spawn i" "\<not> i < thread_count fr" "e = Spawn_writer"
      "s' = s\<lparr>writer := Some Wr_pop, coordinator := M_join 0\<rparr>"
  | k where "coordinator s = M_join k" "k < length (threads s)" "threads s ! k = W_exited"
      "e = Join_worker k" "s' = s\<lparr>coordinator := M_join (Suc k)\<rparr>"
  | k where "coordinator s = M_join k" "\<not> k < length (threads s)" "e = Set_finished"
      "s' = s\<lparr>result_queue := set_finished (result_queue s), coordinator := M_join_writer\<rparr>"
  | "coordinator s = M_join_writer" "writer s = Some Wr_exited" "e = Join_writer"
      "s' = s\<lparr>coordinator := M_return\<rparr>"
  using assms
  by (cases "coordinator s") (auto simp: coordinate_def split: if_splits)

lemma worker_cases [consumes 1, case_names fetch_add break null_page process_page push]:
  assumes "worker fr w s = Some (e, s')"
  obtains
    "w < length (threads s)" "threads s ! w = W_fetch_add" "e = Fetch_add w (current_page s)"
      "s' = s\<lparr>current_page := int32 (current_page s + 1),
               threads := (threads s)[w := W_check (current_page s)]\<rparr>"
  | i where "w < length (threads s)" "threads s ! w = W_check i" "num_pages fr \<le> i"
      "e = Break w i" "s' = s\<lparr>threads := (threads s)[w := W_exited]\<rparr>"
  | i where "w < length (threads s)" "threads s ! w = W_check i" "i < num_pages fr"
      "create_page (doc fr) i = None" "e = Null_page w i"
      "s' = s\<lparr>threads := (threads s)[w := W_fetch_add]\<rparr>"
  | i p where "w < length (threads s)" "threads s ! w = W_check i" "i < num_pages fr"
      "create_page (doc fr) i = Some p"
      "e = Process_page w (process_page (Some p) (pdf_name_v fr) i)"
      "s' = s\<lparr>threads := (threads s)[w := W_push (process_page (Some p) (pdf_name_v fr) i)]\<rparr>"
  | r where "w < length (threads s)" "threads s ! w = W_push r" "e = Push w r"
      "s' = s\<lparr>result_queue := push (result_queue s) r,
               threads := (threads s)[w := W_fetch_add]\<rparr>"
  using assms
  by (cases "threads s ! w") (auto simp: worker_def split: if_splits option.splits)

lemma writer_thread_cases [consumes 1, case_names pop_true pop_false write_ok write_throw]:
  assumes "writer_thread fr s = Some (e, s')"
  obtains
    r rest where "writer s = Some Wr_pop" "queue (result_queue s) = r # rest" "e = Pop_true r"
      "s' = s\<lparr>result_queue := (result_queue s)\<lparr>queue := rest\<rparr>, writer := Some (Wr_write r)\<rparr>"
  | "writer s = Some Wr_pop" "queue (result_queue s) = []" "finished (result_queue s)"
      "e = Pop_false" "s' = s\<lparr>writer := Some Wr_exited\<rparr>"
  | r fs where "writer s = Some (Wr_write r)" "write_result (output_dir fr) r (files s) = Some fs"
      "e = Write r" "s' = s\<lparr>files := fs, writer := Some Wr_pop\<rparr>"
  | r where "writer s = Some (Wr_write r)" "write_result (output_dir fr) r (files s) = None"
      "e = Throw r" "s' = s\<lparr>terminated := True\<rparr>"
  using assms
  by (auto simp: writer_thread_def pop_def split: option.splits writer_pc.splits if_splits list.splits)


lemma step_cases [consumes 1, case_names main worker writer]:
  assumes "step fr s t = Some (e, s')"
  obtains "t = Main" "\<not> terminated s" "coordinate fr s = Some (e, s')"
  | w where "t = Worker w" "\<not> terminated s" "worker fr w s = Some (e, s')"
  | "t = Writer" "\<not> terminated s" "writer_thread fr s = Some (e, s')"
  using assms by (cases t) (auto simp: step_def split: if_splits)

section \<open>The invariants are preserved\<close>

lemma claimed_snoc [simp]: "claimed (tr @ [e]) = claimed tr @ claim_of e"
  by (simp add: claimed_def)

lemma pushed_snoc [simp]: "pushed (tr @ [e]) = pushed tr @ push_of e"
  by (simp add: pushed_def)

lemma popped_snoc [simp]: "popped (tr @ [e]) = popped tr @ pop_of e"
  by (simp add: popped_def)

lemma written_snoc [simp]: "written (tr @ [e]) = written tr @ write_of e"
  by (simp add: written_def)

lemma trace_nil [simp]: "claimed [] = []" "pushed [] = []" "popped [] = []" "written [] = []"
  by (simp_all add: claimed_def pushed_def popped_def written_def)

lemma claims_snoc [simp]: "claims (tr @ [e]) = claims tr + int (length (claim_of e))"
  by (simp add: claims_def)

lemma claims_nil [simp]: "claims [] = 0"
  by (simp add: claims_def)

lemma claims_nonneg: "0 \<le> claims tr"
  by (simp add: claims_def)

lemma int32_succ: "int32 (int32 x + 1) = int32 (x + 1)"
  by (simp add: int32_def mod_simps)

lemma count_inv_step:
  assumes "step fr s t = Some (e, s')" "count_inv (s, tr)"
  shows "count_inv (s', tr @ [e])"
  using assms(1)
proof (cases rule: step_cases)
  case main
  from main(3) assms(2) show ?thesis
    by (cases rule: coordinate_cases) (auto simp: count_inv_def)
next
  case (worker w)
  from worker(3) assms(2) show ?thesis
    by (cases rule: worker_cases) (auto simp: count_inv_def int32_succ)
next
  case writer
  from writer(3) assms(2) show ?thesis
    by (cases rule: writer_thread_cases) (auto simp: count_inv_def)
qed

text \<open>
  The claim of a \<^verbatim>\<open>fetch_add\<close> called while the counter is in range: the index returned
  is the number of claims made before.
\<close>

lemma fetch_add_in_range:
  assumes "in_range (s, tr)" "w < length (threads s)" "threads s ! w = W_fetch_add"
  shows "current_page s = claims tr"
proof -
  from assms(2,3) have "W_fetch_add \<in> set (threads s)" by (metis nth_mem)
  with assms(1) show ?thesis by (simp add: in_range_def)
qed

lemma claims_inv_step:
  assumes "step fr s t = Some (e, s')" "claims_inv (s, tr)" "in_range (s, tr)"
  shows "claims_inv (s', tr @ [e])"
  using assms(1)
proof (cases rule: step_cases)
  case main
  from main(3) assms(2) show ?thesis
    by (cases rule: coordinate_cases) (auto simp: claims_inv_def)
next
  case (worker w)
  from worker(3) show ?thesis
  proof (cases rule: worker_cases)
    case fetch_add
    from assms(3) fetch_add(1,2) have "current_page s = claims tr" by (rule fetch_add_in_range)
    with fetch_add assms(2) claims_nonneg [of tr] show ?thesis
      by (simp add: claims_inv_def upto_rec2)
  next
    case (break i)
    with assms(2) show ?thesis by (simp add: claims_inv_def)
  next
    case (null_page i)
    with assms(2) show ?thesis by (simp add: claims_inv_def)
  next
    case (process_page i p)
    with assms(2) show ?thesis by (simp add: claims_inv_def)
  next
    case (push r)
    with assms(2) show ?thesis by (simp add: claims_inv_def)
  qed
next
  case writer
  from writer(3) assms(2) show ?thesis
    by (cases rule: writer_thread_cases) (auto simp: claims_inv_def)
qed

lemma worker_ok_mono: "worker_ok fr c pc \<Longrightarrow> c \<le> c' \<Longrightarrow> worker_ok fr c' pc"
  by (cases pc) auto

lemma in_set_updD: "pc \<in> set (xs[w := y]) \<Longrightarrow> pc = y \<or> pc \<in> set xs"
  using set_update_subset_insert [of xs w y] by auto

lemma workers_inv_step:
  assumes "step fr s t = Some (e, s')" "workers_inv fr (s, tr)" "in_range (s, tr)"
  shows "workers_inv fr (s', tr @ [e])"
  using assms(1)
proof (cases rule: step_cases)
  case main
  from main(3) assms(2) show ?thesis
    by (cases rule: coordinate_cases) (auto simp: workers_inv_def)
next
  case (worker w)
  have nth: "worker_ok fr (claims tr) (threads s ! w)" if "w < length (threads s)"
    using that assms(2) by (simp add: workers_inv_def)
  from worker(3) show ?thesis
  proof (cases rule: worker_cases)
    case fetch_add
    from assms(3) fetch_add(1,2) have c: "current_page s = claims tr" by (rule fetch_add_in_range)
    have "\<forall>pc \<in> set (threads s). worker_ok fr (claims tr + 1) pc"
      using assms(2) worker_ok_mono [of fr "claims tr" _ "claims tr + 1"]
      by (auto simp: workers_inv_def)
    moreover have "worker_ok fr (claims tr + 1) (W_check (claims tr))"
      using claims_nonneg [of tr] by simp
    ultimately show ?thesis using fetch_add assms(2) c
      by (auto simp: workers_inv_def dest: in_set_updD)
  next
    case (break i)
    with nth have "worker_ok fr (claims tr) W_exited" by simp
    with break assms(2) show ?thesis
      by (auto simp: workers_inv_def dest: in_set_updD)
  next
    case (null_page i)
    with assms(2) show ?thesis
      by (auto simp: workers_inv_def dest: in_set_updD)
  next
    case (process_page i p)
    with nth have "genuine fr (process_page (Some p) (pdf_name_v fr) i)"
      by (simp add: genuine_def made_def opens_def process_page_def)
    with process_page assms(2) show ?thesis
      by (auto simp: workers_inv_def dest: in_set_updD)
  next
    case (push r)
    with nth have "genuine fr r" by simp
    with push assms(2) show ?thesis
      by (auto simp: workers_inv_def dest: in_set_updD)
  qed
next
  case writer
  from writer(3) assms(2) show ?thesis
    by (cases rule: writer_thread_cases) (auto simp: workers_inv_def)
qed

lemma mset_concat_update:
  "w < length xs \<Longrightarrow>
     mset (concat (map f (xs[w := y]))) + mset (f (xs ! w)) = mset (concat (map f xs)) + mset (f y)"
  by (induction xs arbitrary: w) (auto split: nat.splits)

lemma pages_inv_step:
  assumes "step fr s t = Some (e, s')" "pages_inv fr (s, tr)"
  shows "pages_inv fr (s', tr @ [e])"
  using assms(1)
proof (cases rule: step_cases)
  case main
  from main(3) assms(2) show ?thesis
    by (cases rule: coordinate_cases) (auto simp: pages_inv_def)
next
  case (worker w)
  from worker(3) show ?thesis
  proof (cases rule: worker_cases)
    case fetch_add
    with assms(2) mset_concat_update [of w "threads s" "holding fr" "W_check (current_page s)"]
    show ?thesis
      by (auto simp: pages_inv_def)
  next
    case (break i)
    with assms(2) mset_concat_update [of w "threads s" "holding fr" W_exited]
    show ?thesis
      by (auto simp: pages_inv_def opens_def)
  next
    case (null_page i)
    with assms(2) mset_concat_update [of w "threads s" "holding fr" W_fetch_add]
    show ?thesis
      by (auto simp: pages_inv_def opens_def)
  next
    case (process_page i p)
    with assms(2) mset_concat_update [of w "threads s" "holding fr"
        "W_push (process_page (Some p) (pdf_name_v fr) i)"]
    show ?thesis
      by (auto simp: pages_inv_def opens_def process_page_def)
  next
    case (push r)
    with mset_concat_update [of w "threads s" "holding fr" W_fetch_add]
    have "mset (concat (map (holding fr) (threads s))) =
            add_mset (page_id r) (mset (concat (map (holding fr) ((threads s)[w := W_fetch_add]))))"
      by simp
    with assms(2) push show ?thesis
      by (simp add: pages_inv_def)
  qed
next
  case writer
  from writer(3) assms(2) show ?thesis
    by (cases rule: writer_thread_cases) (auto simp: pages_inv_def)
qed

lemma fifo_inv_step:
  assumes "step fr s t = Some (e, s')" "fifo_inv (s, tr)" "coordinator_inv fr (s, tr)"
  shows "fifo_inv (s', tr @ [e])"
  using assms(1)
proof (cases rule: step_cases)
  case main
  from main(3) assms(2,3) show ?thesis
    by (cases rule: coordinate_cases)
       (auto simp: fifo_inv_def coordinator_inv_def set_finished_def)
next
  case (worker w)
  from worker(3) assms(2) show ?thesis
    by (cases rule: worker_cases) (auto simp: fifo_inv_def push_def)
next
  case writer
  from writer(3) assms(2) show ?thesis
    by (cases rule: writer_thread_cases) (auto simp: fifo_inv_def)
qed

lemma write_all_snoc:
  "write_all out (rs @ [r]) fs =
     (case write_all out rs fs of None \<Rightarrow> None | Some fs' \<Rightarrow> write_result out r fs')"
  by (induction rs arbitrary: fs) (auto split: option.splits)

lemma files_inv_step:
  assumes "step fr s t = Some (e, s')" "files_inv fr fs0 (s, tr)"
  shows "files_inv fr fs0 (s', tr @ [e])"
  using assms(1)
proof (cases rule: step_cases)
  case main
  from main(3) assms(2) show ?thesis
    by (cases rule: coordinate_cases) (auto simp: files_inv_def)
next
  case (worker w)
  from worker(3) assms(2) show ?thesis
    by (cases rule: worker_cases) (auto simp: files_inv_def)
next
  case writer
  from writer(3) assms(2) show ?thesis
    by (cases rule: writer_thread_cases) (auto simp: files_inv_def write_all_snoc)
qed


lemma coordinator_inv_step:
  assumes "step fr s t = Some (e, s')" "coordinator_inv fr (s, tr)"
  shows "coordinator_inv fr (s', tr @ [e])"
  using assms(1)
proof (cases rule: step_cases)
  case main
  from main(3) show ?thesis
  proof (cases rule: coordinate_cases)
    case (spawn_worker i)
    with assms(2) show ?thesis by (auto simp: coordinator_inv_def)
  next
    case (spawn_writer i)
    with assms(2) show ?thesis by (auto simp: coordinator_inv_def)
  next
    case (join_worker k)
    with assms(2) show ?thesis by (auto simp: coordinator_inv_def less_Suc_eq)
  next
    case (set_finished k)
    with assms(2) show ?thesis
      by (auto simp: coordinator_inv_def all_exited_def set_finished_def in_set_conv_nth)
  next
    case join_writer
    with assms(2) show ?thesis by (auto simp: coordinator_inv_def)
  qed
next
  case (worker w)
  have live: "w < length (threads s)" "threads s ! w \<noteq> W_exited"
    using worker(3) by (cases rule: worker_cases; simp)+
  have not_done: "\<not> all_exited fr (threads s)"
    using live by (auto simp: all_exited_def)
  have keep: "(threads s)[w := y] ! j = W_exited" if "threads s ! j = W_exited" for j y
    using that live by (cases "j = w") auto
  from worker(3) show ?thesis
  proof (cases rule: worker_cases)
    case fetch_add
    with assms(2) not_done keep show ?thesis
      by (auto simp: coordinator_inv_def split: coordinator_pc.splits)
  next
    case (break i)
    with assms(2) not_done keep show ?thesis
      by (auto simp: coordinator_inv_def split: coordinator_pc.splits)
  next
    case (null_page i)
    with assms(2) not_done keep show ?thesis
      by (auto simp: coordinator_inv_def split: coordinator_pc.splits)
  next
    case (process_page i p)
    with assms(2) not_done keep show ?thesis
      by (auto simp: coordinator_inv_def split: coordinator_pc.splits)
  next
    case (push r)
    with assms(2) not_done keep show ?thesis
      by (auto simp: coordinator_inv_def push_def split: coordinator_pc.splits)
  qed
next
  case writer
  from writer(3) assms(2) show ?thesis
    by (cases rule: writer_thread_cases)
       (auto simp: coordinator_inv_def all_exited_def split: coordinator_pc.splits)
qed

lemma exit_ok_snoc_other:
  "(\<forall>i. e \<noteq> Fetch_add w i) \<Longrightarrow> (\<forall>i. e \<noteq> Break w i) \<Longrightarrow>
     exit_ok fr (tr @ [e]) w pc = exit_ok fr tr w pc"
  by (cases e) (auto simp: exit_ok_def)

lemma exits_inv_quiet:
  assumes "exits_inv fr (s, tr)" "threads s' = threads s"
    "\<forall>w i. e \<noteq> Fetch_add w i" "\<forall>w i. e \<noteq> Break w i"
  shows "exits_inv fr (s', tr @ [e])"
proof -
  from assms(3) have c: "claim_of e = []" by (cases e) auto
  from assms(4) have b: "Break w i \<in> set (tr @ [e]) \<longleftrightarrow> Break w i \<in> set tr" for w i
    by auto
  from assms(3,4) have o: "exit_ok fr (tr @ [e]) w pc = exit_ok fr tr w pc" for w pc
    by (simp add: exit_ok_snoc_other)
  from assms(1,2) show ?thesis
    unfolding exits_inv_def fst_conv snd_conv b o by (simp add: c)
qed

lemma exits_inv_worker:
  assumes inv: "exits_inv fr (s, tr)" and w: "w < length (threads s)"
    and th: "threads s' = (threads s)[w := y]"
    and other: "\<And>w'. w' \<noteq> w \<Longrightarrow> (\<forall>i. e \<noteq> Fetch_add w' i) \<and> (\<forall>i. e \<noteq> Break w' i)"
    and self: "exit_ok fr (tr @ [e]) w y"
    and brk: "\<And>i. e = Break w i \<Longrightarrow> num_pages fr \<le> i \<and> (w, i) \<in> set (claimed tr)"
  shows "exits_inv fr (s', tr @ [e])"
proof -
  have 1: "num_pages fr \<le> i \<and> (w', i) \<in> set (claimed (tr @ [e]))"
    if "Break w' i \<in> set (tr @ [e])" for w' i
  proof -
    from that have "Break w' i \<in> set tr \<or> e = Break w' i" by auto
    then show ?thesis
    proof
      assume "Break w' i \<in> set tr"
      with inv show ?thesis by (simp add: exits_inv_def)
    next
      assume b: "e = Break w' i"
      with other [of w'] have "w' = w" by auto
      with b brk show ?thesis by simp
    qed
  qed
  have 2: "w' < length (threads s')" if "(w', i) \<in> set (claimed (tr @ [e]))" for w' i
  proof -
    from that have "(w', i) \<in> set (claimed tr) \<or> e = Fetch_add w' i"
      by (cases e) auto
    then show ?thesis
    proof
      assume "(w', i) \<in> set (claimed tr)"
      with inv th show ?thesis by (auto simp: exits_inv_def)
    next
      assume "e = Fetch_add w' i"
      with other [of w'] have "w' = w" by auto
      with w th show ?thesis by simp
    qed
  qed
  have 3: "exit_ok fr (tr @ [e]) w' (threads s' ! w')" if "w' < length (threads s')" for w'
  proof (cases "w' = w")
    case True
    with self th w show ?thesis by simp
  next
    case False
    from that th have l: "w' < length (threads s)" by simp
    with inv have "exit_ok fr tr w' (threads s ! w')" by (simp add: exits_inv_def)
    with False other [of w'] th show ?thesis
      by (simp add: exit_ok_snoc_other)
  qed
  from 1 2 3 show ?thesis
    unfolding exits_inv_def fst_conv snd_conv by blast
qed

lemma exits_inv_step:
  assumes "step fr s t = Some (e, s')" "exits_inv fr (s, tr)"
  shows "exits_inv fr (s', tr @ [e])"
  using assms(1)
proof (cases rule: step_cases)
  case main
  from main(3) show ?thesis
  proof (cases rule: coordinate_cases)
    case (spawn_worker i)
    have "exit_ok fr tr (length (threads s)) W_fetch_add"
      using assms(2) by (fastforce simp: exits_inv_def exit_ok_def)
    with spawn_worker assms(2) show ?thesis
      by (auto simp: exits_inv_def nth_append less_Suc_eq exit_ok_snoc_other)
  next
    case (spawn_writer i)
    with assms(2) show ?thesis by (intro exits_inv_quiet [OF assms(2)]) auto
  next
    case (join_worker k)
    with assms(2) show ?thesis by (intro exits_inv_quiet [OF assms(2)]) auto
  next
    case (set_finished k)
    with assms(2) show ?thesis by (intro exits_inv_quiet [OF assms(2)]) auto
  next
    case join_writer
    with assms(2) show ?thesis by (intro exits_inv_quiet [OF assms(2)]) auto
  qed
next
  case (worker w)
  have old: "exit_ok fr tr w (threads s ! w)" if "w < length (threads s)"
    using that assms(2) by (simp add: exits_inv_def)
  have brk: "Break w i \<in> set tr \<Longrightarrow> num_pages fr \<le> i" for i
    using assms(2) by (simp add: exits_inv_def)
  from worker(3) show ?thesis
  proof (cases rule: worker_cases)
    case fetch_add
    with old have "exit_ok fr (tr @ [e]) w (W_check (current_page s))"
      by (auto simp: exit_ok_def)
    with fetch_add show ?thesis
      by (intro exits_inv_worker [OF assms(2), of w _ "W_check (current_page s)"]) auto
  next
    case (break i)
    with old have "exit_ok fr (tr @ [e]) w W_exited" "(w, i) \<in> set (claimed tr)"
      by (auto simp: exit_ok_def)
    with break show ?thesis
      by (intro exits_inv_worker [OF assms(2), of w _ W_exited]) auto
  next
    case (null_page i)
    with old have "exit_ok fr (tr @ [e]) w W_fetch_add"
      by (auto simp: exit_ok_def)
    with null_page show ?thesis
      by (intro exits_inv_worker [OF assms(2), of w _ W_fetch_add]) auto
  next
    case (process_page i p)
    with old have "exit_ok fr (tr @ [e]) w (W_push (process_page (Some p) (pdf_name_v fr) i))"
      by (auto simp: exit_ok_def)
    with process_page show ?thesis
      by (intro exits_inv_worker [OF assms(2), of w _
            "W_push (process_page (Some p) (pdf_name_v fr) i)"]) auto
  next
    case (push r)
    with old have "exit_ok fr (tr @ [e]) w W_fetch_add"
      by (auto simp: exit_ok_def)
    with push show ?thesis
      by (intro exits_inv_worker [OF assms(2), of w _ W_fetch_add]) auto
  qed
next
  case writer
  from writer(3) show ?thesis
    by (cases rule: writer_thread_cases) (intro exits_inv_quiet [OF assms(2)]; simp)+
qed

lemma bound_inv_step:
  assumes "step fr s t = Some (e, s')" "bound_inv fr (s, tr)" "in_range (s, tr)"
  shows "bound_inv fr (s', tr @ [e])"
  using assms(1)
proof (cases rule: step_cases)
  case main
  from main(3) assms(2) show ?thesis
    by (cases rule: coordinate_cases) (auto simp: bound_inv_def)
next
  case (worker w)
  from worker(3) show ?thesis
  proof (cases rule: worker_cases)
    case fetch_add
    from assms(3) fetch_add(1,2) have "current_page s = claims tr" by (rule fetch_add_in_range)
    with fetch_add assms(2) sum_list_map_update [of w "threads s" "past fr" "W_check (claims tr)"]
    show ?thesis by (auto simp: bound_inv_def split: if_splits)
  next
    case (break i)
    with assms(2) sum_list_map_update [of w "threads s" "past fr" W_exited]
    show ?thesis by (auto simp: bound_inv_def)
  next
    case (null_page i)
    with assms(2) sum_list_map_update [of w "threads s" "past fr" W_fetch_add]
    show ?thesis by (auto simp: bound_inv_def)
  next
    case (process_page i p)
    with assms(2) sum_list_map_update [of w "threads s" "past fr"
        "W_push (process_page (Some p) (pdf_name_v fr) i)"]
    show ?thesis by (auto simp: bound_inv_def)
  next
    case (push r)
    with assms(2) sum_list_map_update [of w "threads s" "past fr" W_fetch_add]
    show ?thesis by (auto simp: bound_inv_def)
  qed
next
  case writer
  from writer(3) assms(2) show ?thesis
    by (cases rule: writer_thread_cases) (auto simp: bound_inv_def)
qed

lemma sum_list_past_le: "sum_list (map (past fr) ws) \<le> length ws"
proof (induction ws)
  case Nil
  show ?case by simp
next
  case (Cons pc ws)
  have "past fr pc \<le> 1" by (cases pc) auto
  with Cons show ?case by simp
qed

lemma before_finished_snoc:
  "before_finished (tr @ [e]) =
     (if Set_finished \<in> set tr then before_finished tr
      else if e = Set_finished then tr else tr @ [e])"
  by (auto simp: before_finished_def takeWhile_append)

lemma since_finished_snoc:
  "since_finished (tr @ [e]) =
     (if Set_finished \<in> set tr then since_finished tr @ [e]
      else if e = Set_finished then [e] else [])"
  by (auto simp: since_finished_def dropWhile_append)

lemma before_finished_all [simp]: "Set_finished \<notin> set tr \<Longrightarrow> before_finished tr = tr"
  by (auto simp: before_finished_def)

lemma since_finished_none [simp]: "Set_finished \<notin> set tr \<Longrightarrow> since_finished tr = []"
  by (auto simp: since_finished_def)

lemma before_since: "before_finished tr @ since_finished tr = tr"
  by (simp add: before_finished_def since_finished_def)

lemma since_finished_mem: "Set_finished \<in> set tr \<Longrightarrow> Set_finished \<in> set (since_finished tr)"
  unfolding since_finished_def by (induction tr) auto

lemma order_inv_step:
  assumes "step fr s t = Some (e, s')" "order_inv (s, tr)" "coordinator_inv fr (s, tr)"
  shows "order_inv (s', tr @ [e])"
  using assms(1)
proof (cases rule: step_cases)
  case main
  from main(3) show ?thesis
  proof (cases rule: coordinate_cases)
    case (spawn_worker i)
    with assms(2,3) show ?thesis
      by (auto simp: order_inv_def coordinator_inv_def before_finished_snoc since_finished_snoc)
  next
    case (spawn_writer i)
    with assms(2,3) show ?thesis
      by (auto simp: order_inv_def coordinator_inv_def before_finished_snoc since_finished_snoc)
  next
    case (join_worker k)
    with assms(2,3) show ?thesis
      by (auto simp: order_inv_def coordinator_inv_def before_finished_snoc since_finished_snoc
                     less_Suc_eq)
  next
    case (set_finished k)
    with assms(2,3) show ?thesis
      by (auto simp: order_inv_def coordinator_inv_def before_finished_snoc since_finished_snoc
                     set_finished_def pushed_def)
  next
    case join_writer
    with assms(2,3) show ?thesis
      by (auto simp: order_inv_def coordinator_inv_def before_finished_snoc since_finished_snoc)
  qed
next
  case (worker w)
  have live: "w < length (threads s)" "threads s ! w \<noteq> W_exited"
    using worker(3) by (cases rule: worker_cases; simp)+
  then have "\<not> all_exited fr (threads s)" by (auto simp: all_exited_def)
  with assms(3) have nf: "\<not> finished (result_queue s)"
    by (auto simp: coordinator_inv_def split: coordinator_pc.splits)
  from worker(3) assms(2) nf show ?thesis
    by (cases rule: worker_cases)
       (auto simp: order_inv_def before_finished_snoc since_finished_snoc push_def)
next
  case writer
  from writer(3) assms(2) show ?thesis
    by (cases rule: writer_thread_cases)
       (auto simp: order_inv_def before_finished_snoc since_finished_snoc)
qed

lemma crash_inv_step:
  assumes "step fr s t = Some (e, s')" "crash_inv (s, tr)"
  shows "crash_inv (s', tr @ [e])"
  using assms(1)
proof (cases rule: step_cases)
  case main
  from main(3) main(2) show ?thesis
    by (cases rule: coordinate_cases) (auto simp: crash_inv_def)
next
  case (worker w)
  from worker(3) worker(2) show ?thesis
    by (cases rule: worker_cases) (auto simp: crash_inv_def)
next
  case writer
  from writer(3) writer(2) show ?thesis
    by (cases rule: writer_thread_cases) (auto simp: crash_inv_def)
qed

lemma idle_inv_step:
  assumes "step fr s t = Some (e, s')" "idle_inv fr fs0 (s, tr)"
  shows "idle_inv fr fs0 (s', tr @ [e])"
proof (cases "thread_count fr \<le> 0")
  case False
  then show ?thesis by (simp add: idle_inv_def)
next
  case True
  from assms(1) show ?thesis
  proof (cases rule: step_cases)
    case main
    from main(3) assms(2) True show ?thesis
      by (cases rule: coordinate_cases) (auto simp: idle_inv_def set_finished_def)
  next
    case (worker w)
    from worker(3) assms(2) True show ?thesis
      by (cases rule: worker_cases) (auto simp: idle_inv_def)
  next
    case writer
    from writer(3) assms(2) True show ?thesis
      by (cases rule: writer_thread_cases) (auto simp: idle_inv_def)
  qed
qed

lemma made_inv_step:
  assumes "step fr s t = Some (e, s')" "made_inv fr (s, tr)"
  shows "made_inv fr (s', tr @ [e])"
  using assms(1)
proof (cases rule: step_cases)
  case main
  from main(3) assms(2) show ?thesis
    by (cases rule: coordinate_cases) (auto simp: made_inv_def)
next
  case (worker w)
  from worker(3) show ?thesis
  proof (cases rule: worker_cases)
    case fetch_add
    with assms(2) show ?thesis
      by (auto simp: made_inv_def dest: in_set_updD)
  next
    case (break i)
    with assms(2) show ?thesis
      by (auto simp: made_inv_def dest: in_set_updD)
  next
    case (null_page i)
    with assms(2) show ?thesis
      by (auto simp: made_inv_def dest: in_set_updD)
  next
    case (process_page i p)
    then have "made fr (process_page (Some p) (pdf_name_v fr) i)"
      by (simp add: made_def opens_def process_page_def)
    with process_page assms(2) show ?thesis
      by (auto simp: made_inv_def dest: in_set_updD)
  next
    case (push r)
    then have "W_push r \<in> set (threads s)" by (metis nth_mem)
    with assms(2) have "made fr r" by (simp add: made_inv_def)
    with push assms(2) show ?thesis
      by (auto simp: made_inv_def dest: in_set_updD)
  qed
next
  case writer
  from writer(3) assms(2) show ?thesis
    by (cases rule: writer_thread_cases) (auto simp: made_inv_def)
qed

lemma range_inv_step:
  assumes "step fr s t = Some (e, s')" "range_inv (s, tr)"
  shows "range_inv (s', tr @ [e])"
  using assms(1)
proof (cases rule: step_cases)
  case main
  from main(3) assms(2) show ?thesis
    by (cases rule: coordinate_cases) (auto simp: range_inv_def)
next
  case (worker w)
  from worker(3) assms(2) int32_range [of "current_page s + 1"] show ?thesis
    by (cases rule: worker_cases) (auto simp: range_inv_def)
next
  case writer
  from writer(3) assms(2) show ?thesis
    by (cases rule: writer_thread_cases) (auto simp: range_inv_def)
qed

lemma cover_inv_quiet:
  assumes "cover_inv fr (s, tr)" "current_page s' = current_page s" "claim_of e = []"
  shows "cover_inv fr (s', tr @ [e])"
  using assms by (simp add: cover_inv_def)

lemma cover_inv_step:
  assumes "step fr s t = Some (e, s')" "cover_inv fr (s, tr)" "range_inv (s, tr)"
  shows "cover_inv fr (s', tr @ [e])"
  using assms(1)
proof (cases rule: step_cases)
  case main
  from main(3) show ?thesis
    by (cases rule: coordinate_cases) (intro cover_inv_quiet [OF assms(2)]; simp)+
next
  case (worker w)
  from worker(3) show ?thesis
  proof (cases rule: worker_cases)
    case fetch_add
    let ?c = "current_page s"
    let ?seen = "snd ` set (claimed tr)"
    from assms(2) have K: "\<And>i. 0 \<le> i \<Longrightarrow> i < ?c \<Longrightarrow> i \<in> ?seen"
      and L: "(\<exists>w i. (w, i) \<in> set (claimed tr) \<and> num_pages fr \<le> i) \<Longrightarrow>
                (\<And>i. 0 \<le> i \<Longrightarrow> i < num_pages fr \<Longrightarrow> i \<in> ?seen)"
      by (auto simp: cover_inv_def)
    have seen: "snd ` set (claimed (tr @ [e])) = insert ?c ?seen"
      using fetch_add by simp
    have K': "i \<in> insert ?c ?seen" if "0 \<le> i" "i < int32 (?c + 1)" for i
    proof (cases "?c + 1 \<le> 2 ^ 31 - 1")
      case True
      with assms(3) have "int32 (?c + 1) = ?c + 1"
        by (intro int32_id) (simp_all add: range_inv_def)
      with that have "i < ?c \<or> i = ?c" by auto
      with that(1) K show ?thesis by auto
    next
      case False
      with assms(3) have "?c + 1 = 2 ^ 31" by (simp add: range_inv_def)
      then have "int32 (?c + 1) = - (2 ^ 31)" by (simp add: int32_def)
      with that show ?thesis by simp
    qed
    have L': "i \<in> insert ?c ?seen"
      if a: "\<exists>w i. (w, i) \<in> set (claimed (tr @ [e])) \<and> num_pages fr \<le> i"
        and i: "0 \<le> i" "i < num_pages fr" for i
    proof (cases "\<exists>w i. (w, i) \<in> set (claimed tr) \<and> num_pages fr \<le> i")
      case True
      from L [OF True i] show ?thesis by simp
    next
      case False
      with a fetch_add have "num_pages fr \<le> ?c" by auto
      with i have "i < ?c" by simp
      with i(1) K show ?thesis by simp
    qed
    from K' L' show ?thesis
      unfolding cover_inv_def fst_conv snd_conv seen using fetch_add by simp
  next
    case (break i)
    then show ?thesis by (intro cover_inv_quiet [OF assms(2)]) simp_all
  next
    case (null_page i)
    then show ?thesis by (intro cover_inv_quiet [OF assms(2)]) simp_all
  next
    case (process_page i p)
    then show ?thesis by (intro cover_inv_quiet [OF assms(2)]) simp_all
  next
    case (push r)
    then show ?thesis by (intro cover_inv_quiet [OF assms(2)]) simp_all
  qed
next
  case writer
  from writer(3) show ?thesis
    by (cases rule: writer_thread_cases) (intro cover_inv_quiet [OF assms(2)]; simp)+
qed

lemma returned_no_step:
  assumes "coordinator_inv fr (s, tr)" "coordinator s = M_return"
  shows "step fr s t = None"
proof -
  from assms have a: "all_exited fr (threads s)" and w: "writer s = Some Wr_exited"
    by (simp_all add: coordinator_inv_def)
  show ?thesis
  proof (cases t)
    case Main
    with assms(2) show ?thesis by (simp add: step_def coordinate_def)
  next
    case (Worker k)
    from a have "k < length (threads s) \<Longrightarrow> threads s ! k = W_exited"
      by (simp add: all_exited_def)
    with Worker show ?thesis by (auto simp: step_def worker_def)
  next
    case Writer
    with w show ?thesis by (simp add: step_def writer_thread_def)
  qed
qed

lemma takeWhile_snoc_mem:
  "x \<in> set tr \<Longrightarrow> takeWhile (\<lambda>e. e \<noteq> x) (tr @ [y]) = takeWhile (\<lambda>e. e \<noteq> x) tr"
  by (induction tr) auto

lemma takeWhile_snoc_new:
  "x \<notin> set tr \<Longrightarrow> takeWhile (\<lambda>e. e \<noteq> x) (tr @ [x]) = tr"
  by (induction tr) auto

lemma joins_inv_quiet:
  assumes inv: "joins_inv (s, tr)" and th: "threads s' = threads s"
    and e: "\<forall>k. e \<noteq> Join_worker k" "e \<noteq> Join_writer"
    and nj: "Join_writer \<notin> set tr"
  shows "joins_inv (s', tr @ [e])"
proof -
  have 1: "\<exists>i. Break w i \<in> set (tr @ [e])"
    if "w < length (threads s')" "threads s' ! w = W_exited" for w
    using that inv th by (auto simp: joins_inv_def)
  have 2: "\<exists>i. Break k i \<in> set (takeWhile (\<lambda>e. e \<noteq> Join_worker k) (tr @ [e]))"
    if "Join_worker k \<in> set (tr @ [e])" for k
  proof -
    from that e(1) have m: "Join_worker k \<in> set tr" by auto
    with inv have "\<exists>i. Break k i \<in> set (takeWhile (\<lambda>e. e \<noteq> Join_worker k) tr)"
      by (simp add: joins_inv_def)
    with m show ?thesis by (simp add: takeWhile_snoc_mem)
  qed
  from e(2) nj have 3: "Join_writer \<notin> set (tr @ [e])" by simp
  from 1 2 3 show ?thesis
    unfolding joins_inv_def fst_conv snd_conv by blast
qed

lemma joins_inv_worker:
  assumes inv: "joins_inv (s, tr)" and th: "threads s' = (threads s)[w := y]"
    and e: "\<forall>k. e \<noteq> Join_worker k" "e \<noteq> Join_writer"
    and nj: "Join_writer \<notin> set tr"
    and ex: "y = W_exited \<Longrightarrow> \<exists>i. e = Break w i"
  shows "joins_inv (s', tr @ [e])"
proof -
  have 1: "\<exists>i. Break w' i \<in> set (tr @ [e])"
    if "w' < length (threads s')" "threads s' ! w' = W_exited" for w'
  proof (cases "w' = w")
    case True
    with that th have "y = W_exited" by simp
    with ex True show ?thesis by auto
  next
    case False
    with that th have "w' < length (threads s)" "threads s ! w' = W_exited" by simp_all
    with inv show ?thesis by (auto simp: joins_inv_def)
  qed
  have 2: "\<exists>i. Break k i \<in> set (takeWhile (\<lambda>e. e \<noteq> Join_worker k) (tr @ [e]))"
    if "Join_worker k \<in> set (tr @ [e])" for k
  proof -
    from that e(1) have m: "Join_worker k \<in> set tr" by auto
    with inv have "\<exists>i. Break k i \<in> set (takeWhile (\<lambda>e. e \<noteq> Join_worker k) tr)"
      by (simp add: joins_inv_def)
    with m show ?thesis by (simp add: takeWhile_snoc_mem)
  qed
  from e(2) nj have 3: "Join_writer \<notin> set (tr @ [e])" by simp
  from 1 2 3 show ?thesis
    unfolding joins_inv_def fst_conv snd_conv by blast
qed

lemma joins_inv_step:
  assumes "step fr s t = Some (e, s')" "joins_inv (s, tr)" "coordinator_inv fr (s, tr)"
  shows "joins_inv (s', tr @ [e])"
proof -
  have nj: "Join_writer \<notin> set tr"
  proof
    assume "Join_writer \<in> set tr"
    with assms(2) have "coordinator s = M_return" by (simp add: joins_inv_def)
    with assms(3) have "step fr s t = None" by (rule returned_no_step)
    with assms(1) show False by simp
  qed
  from assms(1) show ?thesis
  proof (cases rule: step_cases)
    case main
    from main(3) show ?thesis
    proof (cases rule: coordinate_cases)
      case (spawn_worker i)
      have 1: "\<exists>j. Break w j \<in> set (tr @ [e])"
        if "w < length (threads s')" "threads s' ! w = W_exited" for w
      proof -
        from that spawn_worker have "w < length (threads s)" "threads s ! w = W_exited"
          by (auto simp: nth_append less_Suc_eq split: if_splits)
        with assms(2) show ?thesis by (auto simp: joins_inv_def)
      qed
      have 2: "\<exists>j. Break k j \<in> set (takeWhile (\<lambda>e. e \<noteq> Join_worker k) (tr @ [e]))"
        if "Join_worker k \<in> set (tr @ [e])" for k
      proof -
        from that spawn_worker have m: "Join_worker k \<in> set tr" by auto
        with assms(2) have "\<exists>j. Break k j \<in> set (takeWhile (\<lambda>e. e \<noteq> Join_worker k) tr)"
          by (simp add: joins_inv_def)
        with m show ?thesis by (simp add: takeWhile_snoc_mem)
      qed
      from spawn_worker nj have 3: "Join_writer \<notin> set (tr @ [e])" by simp
      from 1 2 3 show ?thesis
        unfolding joins_inv_def fst_conv snd_conv by blast
    next
      case (spawn_writer i)
      have 1: "\<exists>j. Break w j \<in> set (tr @ [e])"
        if "w < length (threads s')" "threads s' ! w = W_exited" for w
        using that spawn_writer assms(2) by (auto simp: joins_inv_def)
      have 2: "\<exists>j. Break k j \<in> set (takeWhile (\<lambda>e. e \<noteq> Join_worker k) (tr @ [e]))"
        if "Join_worker k \<in> set (tr @ [e])" for k
      proof -
        from that spawn_writer have m: "Join_worker k \<in> set tr" by auto
        with assms(2) have "\<exists>j. Break k j \<in> set (takeWhile (\<lambda>e. e \<noteq> Join_worker k) tr)"
          by (simp add: joins_inv_def)
        with m show ?thesis by (simp add: takeWhile_snoc_mem)
      qed
      from spawn_writer nj have 3: "Join_writer \<notin> set (tr @ [e])" by simp
      from 1 2 3 show ?thesis
        unfolding joins_inv_def fst_conv snd_conv by blast
    next
      case (join_worker k)
      have 1: "\<exists>j. Break w j \<in> set (tr @ [e])"
        if "w < length (threads s')" "threads s' ! w = W_exited" for w
        using that join_worker assms(2) by (auto simp: joins_inv_def)
      have 2: "\<exists>j. Break k' j \<in> set (takeWhile (\<lambda>e. e \<noteq> Join_worker k') (tr @ [e]))"
        if "Join_worker k' \<in> set (tr @ [e])" for k'
      proof (cases "Join_worker k' \<in> set tr")
        case True
        with assms(2) have "\<exists>j. Break k' j \<in> set (takeWhile (\<lambda>e. e \<noteq> Join_worker k') tr)"
          by (simp add: joins_inv_def)
        with True show ?thesis by (simp add: takeWhile_snoc_mem)
      next
        case False
        with that join_worker have k': "k' = k" by auto
        from join_worker assms(2) obtain j where "Break k j \<in> set tr"
          by (auto simp: joins_inv_def)
        with False k' join_worker show ?thesis
          by (auto simp: takeWhile_snoc_new)
      qed
      from join_worker nj have 3: "Join_writer \<notin> set (tr @ [e])" by simp
      from 1 2 3 show ?thesis
        unfolding joins_inv_def fst_conv snd_conv by blast
    next
      case (set_finished k)
      then show ?thesis
        by (intro joins_inv_quiet [OF assms(2) _ _ _ nj]) simp_all
    next
      case join_writer
      have 1: "\<exists>j. Break w j \<in> set (tr @ [e])"
        if "w < length (threads s')" "threads s' ! w = W_exited" for w
        using that join_writer assms(2) by (auto simp: joins_inv_def)
      have 2: "\<exists>j. Break k j \<in> set (takeWhile (\<lambda>e. e \<noteq> Join_worker k) (tr @ [e]))"
        if "Join_worker k \<in> set (tr @ [e])" for k
      proof -
        from that join_writer have m: "Join_worker k \<in> set tr" by auto
        with assms(2) have "\<exists>j. Break k j \<in> set (takeWhile (\<lambda>e. e \<noteq> Join_worker k) tr)"
          by (simp add: joins_inv_def)
        with m show ?thesis by (simp add: takeWhile_snoc_mem)
      qed
      from join_writer nj
      have 3: "coordinator s' = M_return \<and> tr @ [e] \<noteq> [] \<and> last (tr @ [e]) = Join_writer \<and>
               Join_writer \<notin> set (butlast (tr @ [e]))"
        by simp
      from 1 2 3 show ?thesis
        unfolding joins_inv_def fst_conv snd_conv by blast
    qed
  next
    case (worker w)
    from worker(3) show ?thesis
    proof (cases rule: worker_cases)
      case fetch_add
      then show ?thesis
        by (intro joins_inv_worker [OF assms(2) _ _ _ nj, of _ w "W_check (current_page s)"])
           simp_all
    next
      case (break i)
      then show ?thesis
        by (intro joins_inv_worker [OF assms(2) _ _ _ nj, of _ w W_exited]) simp_all
    next
      case (null_page i)
      then show ?thesis
        by (intro joins_inv_worker [OF assms(2) _ _ _ nj, of _ w W_fetch_add]) simp_all
    next
      case (process_page i p)
      then show ?thesis
        by (intro joins_inv_worker [OF assms(2) _ _ _ nj, of _ w
              "W_push (process_page (Some p) (pdf_name_v fr) i)"]) simp_all
    next
      case (push r)
      then show ?thesis
        by (intro joins_inv_worker [OF assms(2) _ _ _ nj, of _ w W_fetch_add]) simp_all
    qed
  next
    case writer
    from writer(3) show ?thesis
      by (cases rule: writer_thread_cases)
         (intro joins_inv_quiet [OF assms(2) _ _ _ nj]; simp)+
  qed
qed

lemma threads_bounded:
  assumes "coordinator_inv fr (s, tr)"
  shows "int (length (threads s)) \<le> max 0 (thread_count fr)"
  using assms
  by (cases "coordinator s") (auto simp: coordinator_inv_def all_exited_def)

lemma past_lt:
  assumes "w < length ws" "past fr (ws ! w) = 0"
  shows "sum_list (map (past fr) ws) < length ws"
proof -
  from sum_list_map_update [OF assms(1), of "past fr" W_exited] assms(2)
  have "sum_list (map (past fr) ws) + 1 = sum_list (map (past fr) (ws[w := W_exited]))"
    by simp
  also have "\<dots> \<le> length (ws[w := W_exited])" by (rule sum_list_past_le)
  finally show ?thesis by simp
qed

text \<open>
  Whenever a worker is about to call \<^verbatim>\<open>fetch_add\<close>, that worker has not yet claimed an
  index at or beyond the page count, so fewer than \<open>thread_count\<close> such claims have been
  made. In a frame that fits, the counter is then in range, and in a roomy frame it has
  room.
\<close>

lemma claims_below:
  assumes "bound_inv fr (s, tr)" "coordinator_inv fr (s, tr)" "W_fetch_add \<in> set (threads s)"
  shows "claims tr + 1 \<le> max 0 (num_pages fr) + max 0 (thread_count fr)"
proof -
  from assms(3) obtain w where w: "w < length (threads s)" "threads s ! w = W_fetch_add"
    by (auto simp: in_set_conv_nth)
  then have "sum_list (map (past fr) (threads s)) < length (threads s)"
    by (intro past_lt [of w]) simp_all
  then have "int (sum_list (map (past fr) (threads s))) + 1 \<le> int (length (threads s))"
    by simp
  also have "\<dots> \<le> max 0 (thread_count fr)"
    using assms(2) by (rule threads_bounded)
  finally have "max 0 (num_pages fr) + int (sum_list (map (past fr) (threads s))) + 1
      \<le> max 0 (num_pages fr) + max 0 (thread_count fr)"
    by simp
  with assms(1) show ?thesis by (simp add: bound_inv_def)
qed

lemma in_range_of_inv:
  assumes "bound_inv fr (s, tr)" "coordinator_inv fr (s, tr)" "count_inv (s, tr)" "fits fr"
  shows "in_range (s, tr)"
  unfolding in_range_def fst_conv snd_conv
proof
  assume "W_fetch_add \<in> set (threads s)"
  with assms(1,2) have "claims tr + 1 \<le> max 0 (num_pages fr) + max 0 (thread_count fr)"
    by (rule claims_below)
  with assms(4) have "claims tr \<le> 2 ^ 31 - 1" by (simp add: fits_def)
  with claims_nonneg [of tr] have "int32 (claims tr) = claims tr"
    by (intro int32_id) simp_all
  with assms(3) show "current_page s = claims tr" by (simp add: count_inv_def)
qed

lemma room_of_inv:
  assumes "bound_inv fr (s, tr)" "coordinator_inv fr (s, tr)" "count_inv (s, tr)" "roomy fr"
  shows "room s"
  unfolding room_def
proof
  assume "W_fetch_add \<in> set (threads s)"
  with assms(1,2) have "claims tr + 1 \<le> max 0 (num_pages fr) + max 0 (thread_count fr)"
    by (rule claims_below)
  with assms(4) have b: "claims tr + 1 \<le> 2 ^ 31 - 1" by (simp add: roomy_def)
  with claims_nonneg [of tr] have "int32 (claims tr) = claims tr"
    by (intro int32_id) simp_all
  with assms(3) have c: "current_page s = claims tr" by (simp add: count_inv_def)
  from b claims_nonneg [of tr] have "int32 (claims tr + 1) = claims tr + 1"
    by (intro int32_id) simp_all
  with c show "int32 (current_page s + 1) = current_page s + 1" by simp
qed

lemma roomy_fits: "roomy fr \<Longrightarrow> fits fr"
  by (simp add: roomy_def fits_def)

lemma shutdown_inv_init: "shutdown_inv fr fs (init fs, [])"
  by (simp add: shutdown_inv_def fifo_inv_def files_inv_def coordinator_inv_def exits_inv_def
                order_inv_def crash_inv_def idle_inv_def joins_inv_def pages_inv_def
                made_inv_def range_inv_def cover_inv_def init_def empty_queue_def)

lemma shutdown_inv_step:
  assumes "step fr s t = Some (e, s')" "shutdown_inv fr fs0 (s, tr)"
  shows "shutdown_inv fr fs0 (s', tr @ [e])"
proof -
  note st = assms(1)
  from assms(2) have i: "fifo_inv (s, tr)" "files_inv fr fs0 (s, tr)" "coordinator_inv fr (s, tr)"
    "exits_inv fr (s, tr)" "order_inv (s, tr)" "crash_inv (s, tr)" "idle_inv fr fs0 (s, tr)"
    "joins_inv (s, tr)" "pages_inv fr (s, tr)" "made_inv fr (s, tr)" "range_inv (s, tr)"
    "cover_inv fr (s, tr)"
    by (simp_all add: shutdown_inv_def)
  show ?thesis
    unfolding shutdown_inv_def
    using fifo_inv_step [OF st i(1) i(3)] files_inv_step [OF st i(2)]
      coordinator_inv_step [OF st i(3)] exits_inv_step [OF st i(4)]
      order_inv_step [OF st i(5) i(3)] crash_inv_step [OF st i(6)]
      idle_inv_step [OF st i(7)] joins_inv_step [OF st i(8) i(3)]
      pages_inv_step [OF st i(9)] made_inv_step [OF st i(10)] range_inv_step [OF st i(11)]
      cover_inv_step [OF st i(12) i(11)]
    by (intro conjI)
qed

lemma shutdown_inv_step_ev:
  assumes "shutdown_inv fr fs0 x"
  shows "shutdown_inv fr fs0 (step_ev fr x t)"
proof (cases "step fr (fst x) t")
  case None
  with assms show ?thesis by (simp add: step_ev_def)
next
  case (Some a)
  obtain e s' where a: "a = (e, s')" by (cases a)
  obtain s tr where x: "x = (s, tr)" by (cases x)
  from Some a x have st: "step fr s t = Some (e, s')" by simp
  from assms x have "shutdown_inv fr fs0 (s', tr @ [e])"
    by (intro shutdown_inv_step [OF st]) simp
  with Some a x show ?thesis by (simp add: step_ev_def)
qed

lemma shutdown_inv_exec:
  "shutdown_inv fr fs0 x \<Longrightarrow> shutdown_inv fr fs0 (exec fr sched x)"
  unfolding exec_def
  by (induction sched arbitrary: x) (simp_all add: shutdown_inv_step_ev)

lemma shutdown_inv_complete:
  "shutdown_inv fr fs0 x \<Longrightarrow> shutdown_inv fr fs0 (complete fr x)"
proof (induction fr x rule: complete.induct)
  case (1 fr x)
  show ?case
  proof (cases "pick fr (fst x)")
    case None
    with "1.prems" show ?thesis by (subst complete.simps) simp
  next
    case (Some t)
    with "1.IH" [OF Some] "1.prems" show ?thesis
      by (subst complete.simps) (simp add: shutdown_inv_step_ev)
  qed
qed

lemma shutdown_inv_reachable: "shutdown_inv fr fs (exec fr sched (init fs, []))"
  by (intro shutdown_inv_exec shutdown_inv_init)

lemma shutdown_inv_run: "shutdown_inv fr fs (run fr sched fs)"
  unfolding run_def
  by (intro shutdown_inv_complete shutdown_inv_exec shutdown_inv_init)

lemma pipeline_inv_init: "pipeline_inv fr fs (init fs, [])"
  by (simp add: pipeline_inv_def shutdown_inv_init)
     (simp add: count_inv_def claims_inv_def workers_inv_def bound_inv_def init_def int32_def)

lemma pipeline_inv_shutdown: "pipeline_inv fr fs0 x \<Longrightarrow> shutdown_inv fr fs0 x"
  by (simp add: pipeline_inv_def)

lemma pipeline_inv_room:
  assumes "pipeline_inv fr fs0 (s, tr)" "roomy fr"
  shows "room s"
proof -
  from assms(1) have "bound_inv fr (s, tr)" "coordinator_inv fr (s, tr)" "count_inv (s, tr)"
    by (simp_all add: pipeline_inv_def shutdown_inv_def)
  then show ?thesis using assms(2) by (rule room_of_inv)
qed

lemma pipeline_inv_in_range:
  assumes "pipeline_inv fr fs0 (s, tr)" "fits fr"
  shows "in_range (s, tr)"
proof -
  from assms(1) have "bound_inv fr (s, tr)" "coordinator_inv fr (s, tr)" "count_inv (s, tr)"
    by (simp_all add: pipeline_inv_def shutdown_inv_def)
  then show ?thesis using assms(2) by (rule in_range_of_inv)
qed

lemma pipeline_inv_step_ev:
  assumes "pipeline_inv fr fs0 x" "fits fr"
  shows "pipeline_inv fr fs0 (step_ev fr x t)"
proof (cases "step fr (fst x) t")
  case None
  with assms show ?thesis by (simp add: step_ev_def)
next
  case (Some a)
  obtain e s' where a: "a = (e, s')" by (cases a)
  obtain s tr where x: "x = (s, tr)" by (cases x)
  from Some a x have st: "step fr s t = Some (e, s')" by simp
  from assms x have i: "shutdown_inv fr fs0 (s, tr)" "count_inv (s, tr)" "claims_inv (s, tr)"
    "workers_inv fr (s, tr)" "bound_inv fr (s, tr)"
    by (simp_all add: pipeline_inv_def)
  from assms x have r: "in_range (s, tr)" by (intro pipeline_inv_in_range [of fr fs0 s tr]) simp_all
  have "pipeline_inv fr fs0 (s', tr @ [e])"
    unfolding pipeline_inv_def
    using shutdown_inv_step [OF st i(1)] count_inv_step [OF st i(2)] claims_inv_step [OF st i(3) r]
      workers_inv_step [OF st i(4) r] bound_inv_step [OF st i(5) r]
    by (intro conjI)
  with Some a x show ?thesis by (simp add: step_ev_def)
qed

lemma pipeline_inv_exec:
  "pipeline_inv fr fs0 x \<Longrightarrow> fits fr \<Longrightarrow> pipeline_inv fr fs0 (exec fr sched x)"
  unfolding exec_def
  by (induction sched arbitrary: x) (simp_all add: pipeline_inv_step_ev)

lemma pipeline_inv_complete:
  "pipeline_inv fr fs0 x \<Longrightarrow> fits fr \<Longrightarrow> pipeline_inv fr fs0 (complete fr x)"
proof (induction fr x rule: complete.induct)
  case (1 fr x)
  show ?case
  proof (cases "pick fr (fst x)")
    case None
    with "1.prems" show ?thesis by (subst complete.simps) simp
  next
    case (Some t)
    with "1.IH" [OF Some] "1.prems" show ?thesis
      by (subst complete.simps) (simp add: pipeline_inv_step_ev)
  qed
qed

lemma pipeline_inv_reachable:
  "fits fr \<Longrightarrow> pipeline_inv fr fs (exec fr sched (init fs, []))"
  by (intro pipeline_inv_exec pipeline_inv_init)

lemma pipeline_inv_run: "fits fr \<Longrightarrow> pipeline_inv fr fs (run fr sched fs)"
  unfolding run_def
  by (intro pipeline_inv_complete pipeline_inv_exec pipeline_inv_init)

lemma complete_stuck: "pick fr (fst (complete fr x)) = None"
proof (induction fr x rule: complete.induct)
  case (1 fr x)
  show ?case
  proof (cases "pick fr (fst x)")
    case None
    then show ?thesis by (subst complete.simps) simp
  next
    case (Some t)
    with "1.IH" [OF Some] show ?thesis by (subst complete.simps) simp
  qed
qed

lemma pick_None_iff: "pick fr s = None \<longleftrightarrow> (\<forall>t. \<not> enabled fr s t)"
proof -
  have out: "\<not> enabled fr s t"
    if "t \<notin> set (Main # map Worker [0..<length (threads s)] @ [Writer])" for t
    using that by (cases t) (auto simp: enabled_def step_def worker_def)
  have "pick fr s = None \<longleftrightarrow>
          (\<forall>t \<in> set (Main # map Worker [0..<length (threads s)] @ [Writer]). \<not> enabled fr s t)"
    unfolding pick_def find_None_iff by blast
  with out show ?thesis by blast
qed

lemma worker_enabled:
  "w < length (threads s) \<Longrightarrow> threads s ! w \<noteq> W_exited \<Longrightarrow> \<not> terminated s \<Longrightarrow>
     enabled fr s (Worker w)"
  by (cases "threads s ! w") (auto simp: enabled_def step_def worker_def split: option.splits)

lemma no_deadlock:
  assumes "coordinator_inv fr (s, tr)" "\<not> terminated s" "coordinator s \<noteq> M_return"
  shows "\<exists>t. enabled fr s t"
proof (cases "coordinator s")
  case (M_spawn i)
  then have "enabled fr s Main" using assms(2) by (simp add: enabled_def step_def coordinate_def)
  then show ?thesis ..
next
  case (M_join k)
  show ?thesis
  proof (cases "k < length (threads s) \<and> threads s ! k \<noteq> W_exited")
    case True
    then have "enabled fr s (Worker k)"
      using assms(2) worker_enabled [of k s fr] by simp
    then show ?thesis ..
  next
    case False
    with M_join have "enabled fr s Main"
      using assms(2) by (auto simp: enabled_def step_def coordinate_def)
    then show ?thesis ..
  qed
next
  case M_join_writer
  with assms(1) have w: "writer s \<noteq> None" "finished (result_queue s)"
    by (simp_all add: coordinator_inv_def)
  then obtain pc where pc: "writer s = Some pc" by auto
  show ?thesis
  proof (cases pc)
    case Wr_pop
    with pc w(2) assms(2) have "enabled fr s Writer"
      by (auto simp: enabled_def step_def writer_thread_def pop_def split: list.splits)
    then show ?thesis ..
  next
    case (Wr_write r)
    with pc assms(2) have "enabled fr s Writer"
      by (auto simp: enabled_def step_def writer_thread_def split: option.splits)
    then show ?thesis ..
  next
    case Wr_exited
    with pc M_join_writer assms(2) have "enabled fr s Main"
      by (simp add: enabled_def step_def coordinate_def)
    then show ?thesis ..
  qed
next
  case M_return
  with assms(3) show ?thesis by simp
qed

lemma run_final:
  assumes "run fr sched fs = (s, tr)"
  shows "terminated s \<or> coordinator s = M_return"
proof -
  have "shutdown_inv fr fs (s, tr)" using shutdown_inv_run [of fr fs sched] assms by simp
  then have c: "coordinator_inv fr (s, tr)" by (simp add: shutdown_inv_def)
  have "pick fr s = None" using complete_stuck [of fr "exec fr sched (init fs, [])"] assms
    by (simp add: run_def)
  then have "\<forall>t. \<not> enabled fr s t" by (simp add: pick_None_iff)
  with no_deadlock [OF c] show ?thesis by auto
qed

text \<open>A schedule that leaves no thread with a step is a complete execution: \<open>run\<close> adds nothing to it.\<close>

lemma run_of_finished_schedule:
  assumes "\<forall>t. \<not> enabled fr (fst (exec fr sched (init fs, []))) t"
  shows "run fr sched fs = exec fr sched (init fs, [])"
proof -
  from assms have "pick fr (fst (exec fr sched (init fs, []))) = None"
    by (simp add: pick_None_iff)
  then show ?thesis
    unfolding run_def by (subst complete.simps) simp
qed

text \<open>
  The length of the trace and the effort of the state together never grow; in a roomy
  frame, neither do the length of the trace and the budget of the state.
\<close>

lemma step_ev_effort:
  "length (snd (step_ev fr x t)) + effort fr (fst (step_ev fr x t)) \<le> length (snd x) + effort fr (fst x)"
proof (cases "step fr (fst x) t")
  case None
  then show ?thesis by (simp add: step_ev_def)
next
  case (Some a)
  obtain e s' where a: "a = (e, s')" by (cases a)
  with Some step_effort_decreases [of fr "fst x" t e s'] show ?thesis
    by (simp add: step_ev_def)
qed

lemma exec_effort:
  "length (snd (exec fr sched x)) + effort fr (fst (exec fr sched x)) \<le> length (snd x) + effort fr (fst x)"
  unfolding exec_def
proof (induction sched arbitrary: x)
  case Nil
  show ?case by simp
next
  case (Cons t ts)
  from Cons [of "step_ev fr x t"] step_ev_effort [of fr x t] show ?case by simp
qed

lemma step_ev_length:
  assumes "pipeline_inv fr fs0 x" "roomy fr"
  shows "length (snd (step_ev fr x t)) + budget fr (fst (step_ev fr x t))
           \<le> length (snd x) + budget fr (fst x)"
proof (cases "step fr (fst x) t")
  case None
  then show ?thesis by (simp add: step_ev_def)
next
  case (Some a)
  obtain e s' where a: "a = (e, s')" by (cases a)
  from assms have "room (fst x)" by (intro pipeline_inv_room [of fr fs0 "fst x" "snd x"]) simp_all
  with Some a step_budget_decreases [of fr "fst x" t e s'] show ?thesis
    by (simp add: step_ev_def)
qed

lemma exec_length:
  assumes "pipeline_inv fr fs0 x" "roomy fr"
  shows "length (snd (exec fr sched x)) + budget fr (fst (exec fr sched x))
           \<le> length (snd x) + budget fr (fst x)"
  using assms(1) unfolding exec_def
proof (induction sched arbitrary: x)
  case Nil
  show ?case by simp
next
  case (Cons t ts)
  from Cons.prems roomy_fits [OF assms(2)] have "pipeline_inv fr fs0 (step_ev fr x t)"
    by (rule pipeline_inv_step_ev)
  from Cons.IH [OF this] step_ev_length [OF Cons.prems assms(2), of t] show ?case by simp
qed

section \<open>A run that has ended\<close>

lemma holding_exited: "\<forall>pc \<in> set ws. pc = W_exited \<Longrightarrow> concat (map (holding fr) ws) = []"
  by (induction ws) auto

lemma filter_below_upto_gen:
  "filter (\<lambda>i. i < P \<and> Q i) [a..b] = filter Q [a..min b (P - 1)]"
proof (induction a b rule: upto.induct)
  case (1 i j)
  show ?case
  proof (cases "i \<le> j")
    case True
    show ?thesis
    proof (cases "i < P")
      case True
      with \<open>i \<le> j\<close> 1 show ?thesis by (simp add: upto_rec1)
    next
      case False
      with \<open>i \<le> j\<close> 1 show ?thesis by (simp add: upto_rec1)
    qed
  next
    case False
    then show ?thesis by simp
  qed
qed

lemma filter_opens_upto:
  assumes "num_pages fr \<le> c"
  shows "filter (opens fr) [0..c - 1] =
           filter (\<lambda>i. create_page (doc fr) i \<noteq> None) [0..num_pages fr - 1]"
proof -
  have m: "min (c - 1) (num_pages fr - 1) = num_pages fr - 1"
    using assms by simp
  have "filter (opens fr) [0..c - 1] =
          filter (\<lambda>i. create_page (doc fr) i \<noteq> None) [0..min (c - 1) (num_pages fr - 1)]"
    unfolding opens_def by (rule filter_below_upto_gen)
  then show ?thesis by (simp only: m)
qed

lemma made_map:
  "\<forall>r \<in> set rs. made fr r \<Longrightarrow>
     map (\<lambda>i. process_page (create_page (doc fr) i) (pdf_name_v fr) i) (map page_id rs) = rs"
  by (induction rs) (auto simp: made_def)

lemma completed:
  assumes "shutdown_inv fr fs0 (s, tr)" "coordinator s = M_return"
  shows "all_exited fr (threads s)"
    and "writer s = Some Wr_exited"
    and "finished (result_queue s)"
    and "queue (result_queue s) = []"
    and "popped tr = pushed tr"
    and "written tr = pushed tr"
    and "write_all (output_dir fr) (pushed tr) fs0 = Some (files s)"
proof -
  from assms have c: "coordinator_inv fr (s, tr)" and f: "fifo_inv (s, tr)"
    and d: "files_inv fr fs0 (s, tr)"
    by (simp_all add: shutdown_inv_def)
  from c assms(2) show 1: "all_exited fr (threads s)" and 2: "writer s = Some Wr_exited"
    and "finished (result_queue s)" and 4: "queue (result_queue s) = []"
    by (simp_all add: coordinator_inv_def)
  from f 2 4 show 5: "popped tr = pushed tr" and 6: "written tr = pushed tr"
    by (simp_all add: fifo_inv_def)
  from d 6 show "write_all (output_dir fr) (pushed tr) fs0 = Some (files s)"
    by (simp add: files_inv_def)
qed

text \<open>
  What holds of every run that has returned, whatever the counter did: the pages pushed are
  the claimed indices that open; every worker left its loop on a claim at or beyond the
  page count; so every page index was claimed, and every page that opens was pushed.
\<close>

lemma completed_pages:
  assumes "shutdown_inv fr fs0 (s, tr)" "coordinator s = M_return"
  shows "mset (map page_id (pushed tr)) = mset (filter (opens fr) (map snd (claimed tr)))"
proof -
  from assms(1) have p: "pages_inv fr (s, tr)" by (simp add: shutdown_inv_def)
  from assms have "all_exited fr (threads s)" by (rule completed)
  then have "concat (map (holding fr) (threads s)) = []"
    by (simp add: all_exited_def holding_exited)
  with p show ?thesis by (simp add: pages_inv_def)
qed

lemma completed_made:
  assumes "shutdown_inv fr fs0 (s, tr)" "r \<in> set (pushed tr)"
  shows "made fr r"
  using assms by (simp add: shutdown_inv_def made_inv_def)

lemma completed_exits:
  assumes "shutdown_inv fr fs0 (s, tr)" "coordinator s = M_return" "w < nat (thread_count fr)"
  shows "\<exists>i. Break w i \<in> set tr \<and> num_pages fr \<le> i \<and> (w, i) \<in> set (claimed tr)"
proof -
  from assms(1) have j: "joins_inv (s, tr)" and e: "exits_inv fr (s, tr)"
    by (simp_all add: shutdown_inv_def)
  from assms(1,2) have "all_exited fr (threads s)" by (rule completed)
  with assms(3) have "w < length (threads s)" "threads s ! w = W_exited"
    by (simp_all add: all_exited_def)
  with j obtain i where i: "Break w i \<in> set tr" by (auto simp: joins_inv_def)
  with e have "num_pages fr \<le> i \<and> (w, i) \<in> set (claimed tr)" by (simp add: exits_inv_def)
  with i show ?thesis by blast
qed

lemma completed_cover:
  assumes "shutdown_inv fr fs0 (s, tr)" "coordinator s = M_return" "1 \<le> thread_count fr"
    and "0 \<le> i" "i < num_pages fr"
  shows "i \<in> snd ` set (claimed tr)"
proof -
  from assms(3) have "0 < nat (thread_count fr)" by simp
  from completed_exits [OF assms(1,2) this]
  have "\<exists>w j. (w, j) \<in> set (claimed tr) \<and> num_pages fr \<le> j" by blast
  moreover from assms(1) have "cover_inv fr (s, tr)" by (simp add: shutdown_inv_def)
  ultimately show ?thesis using assms(4,5) by (simp add: cover_inv_def)
qed

lemma completed_pushed:
  assumes "shutdown_inv fr fs0 (s, tr)" "coordinator s = M_return" "1 \<le> thread_count fr"
    and "0 \<le> i" "opens fr i"
  shows "process_page (create_page (doc fr) i) (pdf_name_v fr) i \<in> set (pushed tr)"
proof -
  from assms(5) have "i < num_pages fr" by (simp add: opens_def)
  with assms(1-4) have "i \<in> snd ` set (claimed tr)" by (rule completed_cover)
  with assms(5) have "i \<in> set (filter (opens fr) (map snd (claimed tr)))" by simp
  then have "i \<in># mset (filter (opens fr) (map snd (claimed tr)))" by simp
  then have "i \<in># mset (map page_id (pushed tr))"
    by (simp only: completed_pages [OF assms(1,2)])
  then obtain r where r: "r \<in> set (pushed tr)" "page_id r = i" by auto
  from completed_made [OF assms(1) r(1)] r(2)
  have "r = process_page (create_page (doc fr) i) (pdf_name_v fr) i"
    by (simp add: made_def)
  with r(1) show ?thesis by simp
qed

text \<open>What holds, besides, of a run that has returned in a frame that fits.\<close>

lemma completed_upto:
  assumes "pipeline_inv fr fs0 (s, tr)" "coordinator s = M_return"
  shows "mset (map page_id (pushed tr)) = mset (filter (opens fr) [0..claims tr - 1])"
proof -
  from assms(1) have "map snd (claimed tr) = [0..claims tr - 1]"
    by (simp add: pipeline_inv_def claims_inv_def)
  with completed_pages [OF pipeline_inv_shutdown [OF assms(1)] assms(2)] show ?thesis
    by simp
qed

lemma completed_counter:
  assumes "pipeline_inv fr fs0 (s, tr)" "coordinator s = M_return" "1 \<le> thread_count fr"
  shows "num_pages fr < claims tr"
proof -
  from pipeline_inv_shutdown [OF assms(1)] assms(2) have "all_exited fr (threads s)"
    by (rule completed)
  with assms(3) have "W_exited \<in> set (threads s)"
    by (cases "threads s") (auto simp: all_exited_def)
  moreover from assms(1) have "workers_inv fr (s, tr)" by (simp add: pipeline_inv_def)
  ultimately show ?thesis by (fastforce simp: workers_inv_def)
qed

lemma completed_results:
  assumes "pipeline_inv fr fs0 (s, tr)" "coordinator s = M_return" "1 \<le> thread_count fr"
  shows "mset (pushed tr) =
           mset (map (\<lambda>i. process_page (create_page (doc fr) i) (pdf_name_v fr) i)
                  (filter (\<lambda>i. create_page (doc fr) i \<noteq> None) [0..num_pages fr - 1]))"
proof -
  let ?mk = "\<lambda>i. process_page (create_page (doc fr) i) (pdf_name_v fr) i"
  have "\<forall>r \<in> set (pushed tr). made fr r"
    using completed_made [OF pipeline_inv_shutdown [OF assms(1)]] by blast
  then have "pushed tr = map ?mk (map page_id (pushed tr))"
    by (simp only: made_map)
  then have "mset (pushed tr) = image_mset ?mk (mset (map page_id (pushed tr)))"
    by (metis mset_map)
  also have "mset (map page_id (pushed tr)) = mset (filter (opens fr) [0..claims tr - 1])"
    using assms(1,2) by (rule completed_upto)
  also have "filter (opens fr) [0..claims tr - 1] =
      filter (\<lambda>i. create_page (doc fr) i \<noteq> None) [0..num_pages fr - 1]"
    using completed_counter [OF assms] by (simp add: filter_opens_upto)
  finally show ?thesis by simp
qed

lemma distinct_fst_unique:
  "distinct (map snd xs) \<Longrightarrow> (w, i) \<in> set xs \<Longrightarrow> (w', i) \<in> set xs \<Longrightarrow> w = w'"
  by (induction xs) (auto simp: image_iff)

lemma count_list_distinct: "distinct xs \<Longrightarrow> x \<in> set xs \<Longrightarrow> count_list xs x = 1"
  by (induction xs) auto

lemma claimed_once:
  assumes "claims_inv (s, tr)" "0 \<le> i" "i < claims tr"
  shows "(\<exists>!w. (w, i) \<in> set (claimed tr)) \<and> count_list (map snd (claimed tr)) i = 1"
proof -
  from assms(1) have m: "map snd (claimed tr) = [0..claims tr - 1]"
    by (simp add: claims_inv_def)
  then have d: "distinct (map snd (claimed tr))" by simp
  from m assms(2,3) have "i \<in> set (map snd (claimed tr))" by simp
  then obtain w where w: "(w, i) \<in> set (claimed tr)" by auto
  with d have "\<exists>!w. (w, i) \<in> set (claimed tr)"
    using distinct_fst_unique [of "claimed tr" _ i] by (intro ex1I [of _ w]) auto
  moreover from d \<open>i \<in> set (map snd (claimed tr))\<close>
  have "count_list (map snd (claimed tr)) i = 1"
    by (rule count_list_distinct)
  ultimately show ?thesis by simp
qed

lemma completed_breaks:
  assumes "shutdown_inv fr fs0 (s, tr)" "coordinator s = M_return"
  shows "Break w i \<in> set tr \<longleftrightarrow> (w, i) \<in> set (claimed tr) \<and> num_pages fr \<le> i"
proof -
  from assms(1) have e: "exits_inv fr (s, tr)" by (simp add: shutdown_inv_def)
  from assms have a: "all_exited fr (threads s)" by (rule completed)
  show ?thesis
  proof
    assume "Break w i \<in> set tr"
    with e show "(w, i) \<in> set (claimed tr) \<and> num_pages fr \<le> i"
      by (simp add: exits_inv_def)
  next
    assume c: "(w, i) \<in> set (claimed tr) \<and> num_pages fr \<le> i"
    with e have w: "w < length (threads s)" by (auto simp: exits_inv_def)
    with e have "exit_ok fr tr w (threads s ! w)" by (simp add: exits_inv_def)
    moreover from a w have "threads s ! w = W_exited" by (simp add: all_exited_def)
    ultimately show "Break w i \<in> set tr" using c by (auto simp: exit_ok_def)
  qed
qed

text \<open>
  C1, within the range of the counter. Let every page of the document open, let there be
  at least one worker, and let the run end without an exception escaping the writer. Then
  every page index in \<open>[0, P)\<close> was returned by \<^verbatim>\<open>fetch_add\<close> and the result of its
  page was pushed; a worker left its loop (\<^verbatim>\<open>break\<close>) on exactly those of its claims
  that were at or beyond \<open>P\<close>, and every worker did leave its loop. This much holds
  whatever the counter does. If, besides, the page count and the number of workers
  together are at most \<open>2^31\<close>, so that no \<^verbatim>\<open>fetch_add\<close> is called once the counter has
  wrapped around, then every page index was returned exactly once, to exactly one worker,
  and the results pushed are, up to order, the results of the pages \<open>0..P-1\<close>, one each,
  \<open>P\<close> in all.
\<close>

theorem fetch_add_claims_each_page_once:
  assumes "1 \<le> thread_count fr"
    and "\<forall>i. 0 \<le> i \<and> i < num_pages fr \<longrightarrow> create_page (doc fr) i \<noteq> None"
    and "run fr sched fs = (s, tr)"
    and "\<not> terminated s"
  shows "(\<forall>i. 0 \<le> i \<and> i < num_pages fr \<longrightarrow>
            (\<exists>w. (w, i) \<in> set (claimed tr)) \<and>
            process_page (create_page (doc fr) i) (pdf_name_v fr) i \<in> set (pushed tr)) \<and>
         (\<forall>w i. Break w i \<in> set tr \<longleftrightarrow> (w, i) \<in> set (claimed tr) \<and> num_pages fr \<le> i) \<and>
         (\<forall>w. w < nat (thread_count fr) \<longrightarrow> (\<exists>i. Break w i \<in> set tr)) \<and>
         (max 0 (num_pages fr) + thread_count fr \<le> 2 ^ 31 \<longrightarrow>
            (\<forall>i. 0 \<le> i \<and> i < num_pages fr \<longrightarrow>
               (\<exists>!w. (w, i) \<in> set (claimed tr)) \<and> count_list (map snd (claimed tr)) i = 1) \<and>
            mset (pushed tr) =
              mset (map (\<lambda>i. process_page (create_page (doc fr) i) (pdf_name_v fr) i)
                     [0..num_pages fr - 1]) \<and>
            mset (map page_id (pushed tr)) = mset [0..num_pages fr - 1] \<and>
            length (pushed tr) = nat (num_pages fr))"
proof -
  have sh: "shutdown_inv fr fs (s, tr)"
    using shutdown_inv_run [of fr fs sched] assms(3) by simp
  have ret: "coordinator s = M_return"
    using run_final [OF assms(3)] assms(4) by simp
  have cov: "\<forall>i. 0 \<le> i \<and> i < num_pages fr \<longrightarrow>
            (\<exists>w. (w, i) \<in> set (claimed tr)) \<and>
            process_page (create_page (doc fr) i) (pdf_name_v fr) i \<in> set (pushed tr)"
  proof (intro allI impI)
    fix i assume i: "0 \<le> i \<and> i < num_pages fr"
    then have "i \<in> snd ` set (claimed tr)"
      using completed_cover [OF sh ret assms(1), of i] by simp
    then have 1: "\<exists>w. (w, i) \<in> set (claimed tr)" by force
    from i assms(2) have "opens fr i" by (simp add: opens_def)
    with i have 2: "process_page (create_page (doc fr) i) (pdf_name_v fr) i \<in> set (pushed tr)"
      using completed_pushed [OF sh ret assms(1), of i] by simp
    from 1 2 show "(\<exists>w. (w, i) \<in> set (claimed tr)) \<and>
            process_page (create_page (doc fr) i) (pdf_name_v fr) i \<in> set (pushed tr)" ..
  qed
  have brk: "\<forall>w i. Break w i \<in> set tr \<longleftrightarrow> (w, i) \<in> set (claimed tr) \<and> num_pages fr \<le> i"
    using completed_breaks [OF sh ret] by simp
  have out: "\<forall>w. w < nat (thread_count fr) \<longrightarrow> (\<exists>i. Break w i \<in> set tr)"
    using completed_exits [OF sh ret] by blast
  have exact: "(\<forall>i. 0 \<le> i \<and> i < num_pages fr \<longrightarrow>
               (\<exists>!w. (w, i) \<in> set (claimed tr)) \<and> count_list (map snd (claimed tr)) i = 1) \<and>
            mset (pushed tr) =
              mset (map (\<lambda>i. process_page (create_page (doc fr) i) (pdf_name_v fr) i)
                     [0..num_pages fr - 1]) \<and>
            mset (map page_id (pushed tr)) = mset [0..num_pages fr - 1] \<and>
            length (pushed tr) = nat (num_pages fr)"
    if bound: "max 0 (num_pages fr) + thread_count fr \<le> 2 ^ 31"
  proof -
    have fits: "fits fr" using assms(1) bound by (simp add: fits_def)
    have inv: "pipeline_inv fr fs (s, tr)"
      using pipeline_inv_run [OF fits, of fs sched] assms(3) by simp
    have lt: "num_pages fr < claims tr"
      using inv ret assms(1) by (rule completed_counter)
    from inv have ci: "claims_inv (s, tr)" by (simp add: pipeline_inv_def)
    have all: "filter (\<lambda>i. create_page (doc fr) i \<noteq> None) [0..num_pages fr - 1] = [0..num_pages fr - 1]"
      using assms(2) by (auto simp: filter_id_conv)
    have res: "mset (pushed tr) =
        mset (map (\<lambda>i. process_page (create_page (doc fr) i) (pdf_name_v fr) i) [0..num_pages fr - 1])"
      using completed_results [OF inv ret assms(1)] by (simp only: all)
    have "filter (opens fr) [0..claims tr - 1] = [0..num_pages fr - 1]"
      using filter_opens_upto [of fr "claims tr"] lt by (simp only: all)
    then have ids: "mset (map page_id (pushed tr)) = mset [0..num_pages fr - 1]"
      using completed_upto [OF inv ret] by (simp only:)
    from ids have "length (map page_id (pushed tr)) = length [0..num_pages fr - 1]"
      by (rule mset_eq_length)
    then have len: "length (pushed tr) = nat (num_pages fr)" by simp
    have once: "\<forall>i. 0 \<le> i \<and> i < num_pages fr \<longrightarrow>
              (\<exists>!w. (w, i) \<in> set (claimed tr)) \<and> count_list (map snd (claimed tr)) i = 1"
    proof (intro allI impI)
      fix i assume "0 \<le> i \<and> i < num_pages fr"
      with lt have "0 \<le> i" "i < claims tr" by simp_all
      then show "(\<exists>!w. (w, i) \<in> set (claimed tr)) \<and> count_list (map snd (claimed tr)) i = 1"
        by (rule claimed_once [OF ci])
    qed
    from once res ids len show ?thesis by (intro conjI)
  qed
  from exact have "max 0 (num_pages fr) + thread_count fr \<le> 2 ^ 31 \<longrightarrow>
            (\<forall>i. 0 \<le> i \<and> i < num_pages fr \<longrightarrow>
               (\<exists>!w. (w, i) \<in> set (claimed tr)) \<and> count_list (map snd (claimed tr)) i = 1) \<and>
            mset (pushed tr) =
              mset (map (\<lambda>i. process_page (create_page (doc fr) i) (pdf_name_v fr) i)
                     [0..num_pages fr - 1]) \<and>
            mset (map page_id (pushed tr)) = mset [0..num_pages fr - 1] \<and>
            length (pushed tr) = nat (num_pages fr)"
    by (rule impI)
  with cov brk out show ?thesis by (intro conjI)
qed

theorem fetch_add_claims_each_page_once_witness:
  "(\<exists>!w. (w, 0) \<in> set (claimed (snd (run report_frame report_schedule Map.empty)))) \<and>
   (\<exists>!w. (w, 1) \<in> set (claimed (snd (run report_frame report_schedule Map.empty)))) \<and>
   count_list (map snd (claimed (snd (run report_frame report_schedule Map.empty)))) 0 = 1 \<and>
   count_list (map snd (claimed (snd (run report_frame report_schedule Map.empty)))) 1 = 1 \<and>
   mset (map page_id (pushed (snd (run report_frame report_schedule Map.empty)))) = mset [0, 1] \<and>
   length (pushed (snd (run report_frame report_schedule Map.empty))) = 2"
proof -
  let ?r = "run report_frame report_schedule Map.empty"
  have 1: "1 \<le> thread_count report_frame" by (simp add: report_frame_def)
  have n: "num_pages report_frame = 2"
    by (simp add: report_frame_def num_pages_def report_document_def int32_def)
  have b: "max 0 (2::int) + thread_count report_frame \<le> 2 ^ 31"
    by (simp add: report_frame_def)
  have 2: "\<forall>i. 0 \<le> i \<and> i < num_pages report_frame \<longrightarrow> create_page (doc report_frame) i \<noteq> None"
    by (simp add: n) (simp add: report_frame_def report_document_def)
  have 3: "?r = (fst ?r, snd ?r)" by simp
  have 4: "\<not> terminated (fst ?r)" by code_simp
  have u: "[0..(2::int) - 1] = [0, 1]"
    by (simp add: upto_rec1)
  note t = fetch_add_claims_each_page_once [OF 1 2 3 4, unfolded n u]
  from t b have once: "(\<exists>!w. (w, i) \<in> set (claimed (snd ?r))) \<and>
      count_list (map snd (claimed (snd ?r))) i = 1" if "0 \<le> i \<and> i < 2" for i
    using that by blast
  from t b have ids: "mset (map page_id (pushed (snd ?r))) = mset [0, 1]"
    and len: "length (pushed (snd ?r)) = nat 2"
    by blast+
  from once [of 0] once [of 1] ids len show ?thesis by simp
qed

section \<open>The order of the shutdown\<close>

lemma pushed_append: "pushed (a @ b) = pushed a @ pushed b"
  by (simp add: pushed_def)

lemma complete_effort:
  "length (snd (complete fr x)) + effort fr (fst (complete fr x))
     \<le> length (snd x) + effort fr (fst x)"
proof (induction fr x rule: complete.induct)
  case (1 fr x)
  show ?case
  proof (cases "pick fr (fst x)")
    case None
    then show ?thesis by (subst (1 2) complete.simps) simp
  next
    case (Some t)
    with "1.IH" [OF Some] step_ev_effort [of fr x t] show ?thesis
      by (subst (1 2) complete.simps) simp
  qed
qed

lemma complete_length:
  "pipeline_inv fr fs0 x \<Longrightarrow> roomy fr \<Longrightarrow>
     length (snd (complete fr x)) + budget fr (fst (complete fr x))
       \<le> length (snd x) + budget fr (fst x)"
proof (induction fr x rule: complete.induct)
  case (1 fr x)
  show ?case
  proof (cases "pick fr (fst x)")
    case None
    then show ?thesis by (subst (1 2) complete.simps) simp
  next
    case (Some t)
    from "1.prems"(1) roomy_fits [OF "1.prems"(2)] have "pipeline_inv fr fs0 (step_ev fr x t)"
      by (rule pipeline_inv_step_ev)
    from "1.IH" [OF Some this "1.prems"(2)] step_ev_length [OF "1.prems", of t] Some
    show ?thesis
      by (subst (1 2) complete.simps) simp
  qed
qed

lemma budget_init: "budget fr (init fs) = 5 + 5 * nat (num_pages fr) + 4 * nat (thread_count fr)"
  by (simp add: budget_def init_def empty_queue_def)

lemma effort_init:
  "effort fr (init fs) =
     5 + 5 * nat (num_pages fr) + 4 * nat (thread_count fr) + 5 * 2 ^ 32 * nat (thread_count fr)"
  by (simp add: effort_def budget_init) (simp add: init_def)

text \<open>
  No execution is longer than the effort of the initial state, whatever the schedule,
  the page count and the number of workers. In a roomy frame, none is longer than the
  budget of the initial state.
\<close>

lemma exec_steps_finite:
  "length (snd (exec fr sched (init fs, [])))
     \<le> 5 + 5 * nat (num_pages fr) + 4 * nat (thread_count fr) + 5 * 2 ^ 32 * nat (thread_count fr)"
proof -
  have "length (snd (exec fr sched (init fs, []))) \<le> effort fr (init fs)"
    using exec_effort [of fr sched "(init fs, [])"] by simp
  then show ?thesis by (simp only: effort_init)
qed

lemma run_steps_finite:
  "length (snd (run fr sched fs))
     \<le> 5 + 5 * nat (num_pages fr) + 4 * nat (thread_count fr) + 5 * 2 ^ 32 * nat (thread_count fr)"
proof -
  have "length (snd (run fr sched fs)) + effort fr (fst (run fr sched fs))
          \<le> length (snd (exec fr sched (init fs, []))) + effort fr (fst (exec fr sched (init fs, [])))"
    unfolding run_def by (rule complete_effort)
  also have "\<dots> \<le> effort fr (init fs)"
    using exec_effort [of fr sched "(init fs, [])"] by simp
  finally have "length (snd (run fr sched fs)) \<le> effort fr (init fs)" by simp
  then show ?thesis by (simp only: effort_init)
qed

lemma exec_steps_bounded:
  assumes "roomy fr"
  shows "length (snd (exec fr sched (init fs, [])))
           \<le> 5 + 5 * nat (num_pages fr) + 4 * nat (thread_count fr)"
  using exec_length [OF pipeline_inv_init [of fr fs] assms, of sched] by (simp add: budget_init)

lemma run_steps_bounded:
  assumes "roomy fr"
  shows "length (snd (run fr sched fs)) \<le> 5 + 5 * nat (num_pages fr) + 4 * nat (thread_count fr)"
proof -
  have "length (snd (run fr sched fs)) + budget fr (fst (run fr sched fs))
          \<le> length (snd (exec fr sched (init fs, []))) + budget fr (fst (exec fr sched (init fs, [])))"
    unfolding run_def
    using pipeline_inv_reachable [OF roomy_fits [OF assms]] assms by (rule complete_length)
  also have "\<dots> \<le> budget fr (init fs)"
    using exec_length [OF pipeline_inv_init [of fr fs] assms, of sched] by simp
  finally show ?thesis by (simp add: budget_init)
qed

lemma completed_order:
  assumes "shutdown_inv fr fs0 (s, tr)" "coordinator s = M_return"
  shows "Set_finished \<in> set tr"
    and "Join_writer \<in> set (since_finished tr)"
    and "Pop_false \<in> set (since_finished tr)"
    and "pushed (before_finished tr) = pushed tr"
    and "k < nat (thread_count fr) \<Longrightarrow> Join_worker k \<in> set (before_finished tr)"
proof -
  from assms(1) have o: "order_inv (s, tr)" by (simp add: shutdown_inv_def)
  from assms have f: "finished (result_queue s)" and w: "writer s = Some Wr_exited"
    and a: "all_exited fr (threads s)"
    by (rule completed)+
  have split: "set tr = set (before_finished tr) \<union> set (since_finished tr)"
    using before_since [of tr] by (metis set_append)
  from o f show "Set_finished \<in> set tr" by (simp add: order_inv_def)
  from o assms(2) have "Join_writer \<in> set tr" "Join_writer \<notin> set (before_finished tr)"
    by (simp_all add: order_inv_def)
  with split show "Join_writer \<in> set (since_finished tr)" by blast
  from o w have "Pop_false \<in> set tr" "Pop_false \<notin> set (before_finished tr)"
    by (simp_all add: order_inv_def)
  with split show "Pop_false \<in> set (since_finished tr)" by blast
  from o have "pushed (since_finished tr) = []" by (simp add: order_inv_def)
  then show "pushed (before_finished tr) = pushed tr"
    using before_since [of tr] pushed_append [of "before_finished tr" "since_finished tr"]
    by simp
  assume "k < nat (thread_count fr)"
  with a assms(2) o have "Join_worker k \<in> set tr" "Join_worker k \<notin> set (since_finished tr)"
    by (simp_all add: order_inv_def all_exited_def)
  with split show "Join_worker k \<in> set (before_finished tr)" by blast
qed

text \<open>
  When \<^verbatim>\<open>process_pdf\<close> has returned, the join of the writer is the last event of the
  trace: all that the writer did, its last \<open>pop\<close> included, lies before it. And every
  worker had left its loop before it was joined.
\<close>

lemma completed_joins:
  assumes "shutdown_inv fr fs0 (s, tr)" "coordinator s = M_return"
  shows "\<exists>tr'. tr = tr' @ [Join_writer] \<and> Join_writer \<notin> set tr' \<and> Pop_false \<in> set tr' \<and>
               popped tr' = pushed tr \<and> written tr' = pushed tr"
    and "k < nat (thread_count fr) \<Longrightarrow>
           \<exists>i. Break k i \<in> set (takeWhile (\<lambda>e. e \<noteq> Join_worker k) tr)"
proof -
  from assms(1) have j: "joins_inv (s, tr)" and o: "order_inv (s, tr)"
    by (simp_all add: shutdown_inv_def)
  from o assms(2) have m: "Join_writer \<in> set tr" by (simp add: order_inv_def)
  with j have l: "tr \<noteq> []" "last tr = Join_writer" "Join_writer \<notin> set (butlast tr)"
    by (simp_all add: joins_inv_def)
  from l(1) obtain tr' x where t: "tr = tr' @ [x]" by (cases tr rule: rev_cases) auto
  with l(2,3) have x: "x = Join_writer" and n: "Join_writer \<notin> set tr'" by simp_all
  from completed(2) [OF assms] o have "Pop_false \<in> set tr" by (simp add: order_inv_def)
  then have p: "Pop_false \<in> set tr'" by (simp add: t x)
  from completed(5) [OF assms] have q: "popped tr' = pushed tr" by (simp add: t x)
  from completed(6) [OF assms] have r: "written tr' = pushed tr" by (simp add: t x)
  from t x n p q r
  show "\<exists>tr'. tr = tr' @ [Join_writer] \<and> Join_writer \<notin> set tr' \<and> Pop_false \<in> set tr' \<and>
               popped tr' = pushed tr \<and> written tr' = pushed tr"
    by blast
  assume "k < nat (thread_count fr)"
  then have "Join_worker k \<in> set (before_finished tr)" by (rule completed_order(5) [OF assms])
  then have "Join_worker k \<in> set (before_finished tr @ since_finished tr)" by simp
  then have "Join_worker k \<in> set tr" by (simp only: before_since)
  with j show "\<exists>i. Break k i \<in> set (takeWhile (\<lambda>e. e \<noteq> Join_worker k) tr)"
    by (simp add: joins_inv_def)
qed

text \<open>
  C3. Whatever the schedule, the number of workers and the page count, the pipeline of one
  document comes to an end: no execution, complete or not, has more than
  \<open>5 + 5 P + 4 N + 5 * 2^32 * N\<close> steps, and none has more than \<open>5 + 5 P + 4 N\<close>
  when \<open>P + N\<close> is at most \<open>2^31 - 1\<close>. Unless an exception of the writer has ended
  the process, \<^verbatim>\<open>process_pdf\<close> has then returned and the trace shows the order of the
  shutdown: every worker had left its loop before it was joined, and every worker was
  joined, and every push was made, before \<open>set_finished\<close>; the writer's \<open>pop\<close> returned
  \<^verbatim>\<open>false\<close> after \<open>set_finished\<close>; the join of the writer is the last event of all, and
  before it every result pushed had been popped and written and the writer had been told
  the end; the queue is empty.
\<close>

theorem pipeline_terminates:
  assumes "run fr sched fs = (s, tr)"
  shows "(terminated s \<or>
            coordinator s = M_return \<and> writer s = Some Wr_exited \<and>
            queue (result_queue s) = [] \<and>
            (\<forall>k. k < nat (thread_count fr) \<longrightarrow>
               Join_worker k \<in> set (before_finished tr) \<and>
               (\<exists>i. Break k i \<in> set (takeWhile (\<lambda>e. e \<noteq> Join_worker k) tr))) \<and>
            pushed (before_finished tr) = pushed tr \<and>
            Set_finished \<in> set tr \<and>
            Join_writer \<in> set (since_finished tr) \<and>
            Pop_false \<in> set (since_finished tr) \<and>
            popped tr = pushed tr \<and> written tr = pushed tr \<and>
            (\<exists>tr'. tr = tr' @ [Join_writer] \<and> Join_writer \<notin> set tr' \<and> Pop_false \<in> set tr' \<and>
                    popped tr' = pushed tr \<and> written tr' = pushed tr)) \<and>
         length tr \<le> 5 + 5 * nat (num_pages fr) + 4 * nat (thread_count fr)
                       + 5 * 2 ^ 32 * nat (thread_count fr) \<and>
         length (snd (exec fr sched' (init fs, [])))
           \<le> 5 + 5 * nat (num_pages fr) + 4 * nat (thread_count fr)
               + 5 * 2 ^ 32 * nat (thread_count fr) \<and>
         (max 0 (num_pages fr) + max 0 (thread_count fr) \<le> 2 ^ 31 - 1 \<longrightarrow>
            length tr \<le> 5 + 5 * nat (num_pages fr) + 4 * nat (thread_count fr) \<and>
            length (snd (exec fr sched' (init fs, [])))
              \<le> 5 + 5 * nat (num_pages fr) + 4 * nat (thread_count fr))"
proof -
  have inv: "shutdown_inv fr fs (s, tr)"
    using shutdown_inv_run [of fr fs sched] assms by simp
  have fin: "length tr \<le> 5 + 5 * nat (num_pages fr) + 4 * nat (thread_count fr)
                       + 5 * 2 ^ 32 * nat (thread_count fr)"
    using run_steps_finite [of fr sched fs] by (simp only: assms snd_conv)
  have fin': "length (snd (exec fr sched' (init fs, [])))
           \<le> 5 + 5 * nat (num_pages fr) + 4 * nat (thread_count fr)
               + 5 * 2 ^ 32 * nat (thread_count fr)"
    by (rule exec_steps_finite)
  have len: "length tr \<le> 5 + 5 * nat (num_pages fr) + 4 * nat (thread_count fr) \<and>
            length (snd (exec fr sched' (init fs, [])))
              \<le> 5 + 5 * nat (num_pages fr) + 4 * nat (thread_count fr)"
    if "max 0 (num_pages fr) + max 0 (thread_count fr) \<le> 2 ^ 31 - 1"
  proof -
    from that have f: "roomy fr" by (simp add: roomy_def)
    from run_steps_bounded [OF f, of sched fs] assms exec_steps_bounded [OF f, of sched' fs]
    show ?thesis by simp
  qed
  have ord: "coordinator s = M_return \<and> writer s = Some Wr_exited \<and>
            queue (result_queue s) = [] \<and>
            (\<forall>k. k < nat (thread_count fr) \<longrightarrow>
               Join_worker k \<in> set (before_finished tr) \<and>
               (\<exists>i. Break k i \<in> set (takeWhile (\<lambda>e. e \<noteq> Join_worker k) tr))) \<and>
            pushed (before_finished tr) = pushed tr \<and>
            Set_finished \<in> set tr \<and>
            Join_writer \<in> set (since_finished tr) \<and>
            Pop_false \<in> set (since_finished tr) \<and>
            popped tr = pushed tr \<and> written tr = pushed tr \<and>
            (\<exists>tr'. tr = tr' @ [Join_writer] \<and> Join_writer \<notin> set tr' \<and> Pop_false \<in> set tr' \<and>
                    popped tr' = pushed tr \<and> written tr' = pushed tr)"
    if "\<not> terminated s"
  proof -
    from that run_final [OF assms] have ret: "coordinator s = M_return" by simp
    note c = completed [OF inv ret] and o = completed_order [OF inv ret]
      and j = completed_joins [OF inv ret]
    have w: "\<forall>k. k < nat (thread_count fr) \<longrightarrow>
               Join_worker k \<in> set (before_finished tr) \<and>
               (\<exists>i. Break k i \<in> set (takeWhile (\<lambda>e. e \<noteq> Join_worker k) tr))"
      using o(5) j(2) by blast
    from ret c(2) c(4) w o(4) o(1) o(2) o(3) c(5) c(6) j(1) show ?thesis
      by (intro conjI)
  qed
  from ord fin fin' len show ?thesis by blast
qed

theorem pipeline_terminates_witness:
  "coordinator (fst (run report_frame report_schedule Map.empty)) = M_return \<and>
   writer (fst (run report_frame report_schedule Map.empty)) = Some Wr_exited \<and>
   Join_worker 0 \<in> set (before_finished (snd (run report_frame report_schedule Map.empty))) \<and>
   Join_worker 1 \<in> set (before_finished (snd (run report_frame report_schedule Map.empty))) \<and>
   Join_writer \<in> set (since_finished (snd (run report_frame report_schedule Map.empty))) \<and>
   Pop_false \<in> set (since_finished (snd (run report_frame report_schedule Map.empty))) \<and>
   written (snd (run report_frame report_schedule Map.empty))
     = pushed (snd (run report_frame report_schedule Map.empty)) \<and>
   (\<exists>tr'. snd (run report_frame report_schedule Map.empty) = tr' @ [Join_writer] \<and>
           Join_writer \<notin> set tr' \<and>
           written tr' = pushed (snd (run report_frame report_schedule Map.empty))) \<and>
   length (snd (run report_frame report_schedule Map.empty)) \<le> 23"
proof -
  let ?r = "run report_frame report_schedule Map.empty"
  have r: "?r = (fst ?r, snd ?r)" by simp
  have t: "\<not> terminated (fst ?r)" by code_simp
  have n: "num_pages report_frame = 2" "thread_count report_frame = 2"
    by (simp_all add: report_frame_def num_pages_def report_document_def int32_def)
  note u = pipeline_terminates [OF r, of "[]", unfolded n]
  from u t have a: "coordinator (fst ?r) = M_return" "writer (fst ?r) = Some Wr_exited"
    "Join_writer \<in> set (since_finished (snd ?r))" "Pop_false \<in> set (since_finished (snd ?r))"
    "written (snd ?r) = pushed (snd ?r)"
    by blast+
  from u t have "\<forall>k. k < nat 2 \<longrightarrow> Join_worker k \<in> set (before_finished (snd ?r))"
    by blast
  then have b: "Join_worker 0 \<in> set (before_finished (snd ?r))"
    "Join_worker 1 \<in> set (before_finished (snd ?r))"
    by simp_all
  from u t have c: "\<exists>tr'. snd ?r = tr' @ [Join_writer] \<and> Join_writer \<notin> set tr' \<and>
      written tr' = pushed (snd ?r)"
    by blast
  from u have "max 0 (2::int) + max 0 2 \<le> 2 ^ 31 - 1 \<longrightarrow> length (snd ?r) \<le> 5 + 5 * nat 2 + 4 * nat 2"
    by blast
  then have d: "length (snd ?r) \<le> 23" by simp
  from a b c d show ?thesis by (intro conjI)
qed

section \<open>The channel after \<open>set_finished\<close>, and a pipeline without workers\<close>

lemma process_pdf_not_loaded:
  "load_from_file env p = None \<Longrightarrow>
     process_pdf sched env p out n w = Inr ([], w\<lparr>cerr := cerr w @ [Failed_to_open_PDF p]\<rparr>)"
  by (simp add: process_pdf_def)

lemma process_pdf_loaded:
  assumes "load_from_file env p = Some d"
    and "run \<lparr>pdf_name_v = stem p, doc = d, output_dir = out, thread_count = n\<rparr> sched (disk w)
           = (s, tr)"
  shows "process_pdf sched env p out n w =
           (if terminated s then Inl Uncaught_exception else Inr (tr, w\<lparr>disk := files s\<rparr>))"
  using assms run_final [OF assms(2)] by (auto simp: process_pdf_def)

lemma completed_ids:
  assumes "pipeline_inv fr fs0 (s, tr)" "coordinator s = M_return" "1 \<le> thread_count fr"
  shows "mset (map page_id (pushed tr)) =
           mset (filter (\<lambda>i. create_page (doc fr) i \<noteq> None) [0..num_pages fr - 1])"
proof -
  have "num_pages fr \<le> claims tr"
    using completed_counter [OF assms] by simp
  then have "filter (opens fr) [0..claims tr - 1] =
      filter (\<lambda>i. create_page (doc fr) i \<noteq> None) [0..num_pages fr - 1]"
    by (rule filter_opens_upto)
  with completed_upto [OF assms(1,2)] show ?thesis by (simp only:)
qed

lemma finished_stops_workers:
  assumes "coordinator_inv fr (s, tr)" "finished (result_queue s)"
  shows "\<not> enabled fr s (Worker w)"
proof -
  from assms have "all_exited fr (threads s)"
    by (auto simp: coordinator_inv_def split: coordinator_pc.splits)
  then have "w < length (threads s) \<Longrightarrow> threads s ! w = W_exited"
    by (simp add: all_exited_def)
  then show ?thesis
    by (auto simp: enabled_def step_def worker_def)
qed

text \<open>
  C8. \<open>set_finished\<close> only sets the flag: applied twice it gives the same channel as
  applied once, and it leaves the queued items alone. In the pipeline no item is pushed
  after it: in every state that \<^verbatim>\<open>process_pdf\<close> can reach with the flag set, no worker
  has a step.
\<close>

theorem set_finished_idempotent:
  "set_finished (set_finished q) = set_finished q \<and>
   finished (set_finished q) \<and>
   queue (set_finished q) = queue q \<and>
   (finished (result_queue (fst (exec fr sched (init fs, [])))) \<longrightarrow>
      \<not> enabled fr (fst (exec fr sched (init fs, []))) (Worker w))"
proof -
  obtain s tr where x: "exec fr sched (init fs, []) = (s, tr)"
    by (cases "exec fr sched (init fs, [])")
  then have "shutdown_inv fr fs (s, tr)"
    using shutdown_inv_reachable [of fr fs sched] by simp
  then have "coordinator_inv fr (s, tr)"
    by (simp add: shutdown_inv_def)
  then have "finished (result_queue s) \<longrightarrow> \<not> enabled fr s (Worker w)"
    using finished_stops_workers by blast
  with x show ?thesis by (simp add: set_finished_def)
qed

theorem set_finished_idempotent_witness:
  "set_finished (set_finished \<lparr>queue = [process_page None ''a'' 0], finished = False\<rparr>)
     = set_finished \<lparr>queue = [process_page None ''a'' 0], finished = False\<rparr> \<and>
   finished (result_queue (fst (exec empty_frame [Main, Main, Worker 0, Worker 0, Main, Main]
                                  (init Map.empty, [])))) \<and>
   \<not> enabled empty_frame (fst (exec empty_frame [Main, Main, Worker 0, Worker 0, Main, Main]
                                  (init Map.empty, []))) (Worker 0)"
proof -
  have f: "finished (result_queue (fst (exec empty_frame [Main, Main, Worker 0, Worker 0, Main, Main]
                                  (init Map.empty, []))))"
    by code_simp
  from set_finished_idempotent
         [of "\<lparr>queue = [process_page None ''a'' 0], finished = False\<rparr>" empty_frame
             "[Main, Main, Worker 0, Worker 0, Main, Main]" Map.empty 0] f
  show ?thesis by simp
qed

text \<open>
  C9. With a thread count of zero or less and a document that opens, \<^verbatim>\<open>process_pdf\<close>
  starts no worker; it starts the writer, calls \<open>set_finished\<close> at once (the join loop is
  empty), the writer's first \<open>pop\<close> returns \<^verbatim>\<open>false\<close>, and \<^verbatim>\<open>process_pdf\<close> returns. Nothing
  is written: the world is the one it started in.
\<close>

theorem no_workers_no_output:
  assumes "n \<le> 0"
    and "load_from_file env p = Some d"
    and "run \<lparr>pdf_name_v = stem p, doc = d, output_dir = out, thread_count = n\<rparr> sched (disk w)
           = (s, tr)"
  shows "threads s = [] \<and>
         tr = [Spawn_writer, Set_finished, Pop_false, Join_writer] \<and>
         coordinator s = M_return \<and> writer s = Some Wr_exited \<and>
         finished (result_queue s) \<and> \<not> terminated s \<and>
         written tr = [] \<and> files s = disk w \<and>
         process_pdf sched env p out n w
           = Inr ([Spawn_writer, Set_finished, Pop_false, Join_writer], w)"
proof -
  let ?fr = "\<lparr>pdf_name_v = stem p, doc = d, output_dir = out, thread_count = n\<rparr>"
  have "shutdown_inv ?fr (disk w) (s, tr)"
    using shutdown_inv_run [of ?fr "disk w" sched] assms(3) by simp
  then have "idle_inv ?fr (disk w) (s, tr)" by (simp add: shutdown_inv_def)
  with assms(1) have i: "threads s = []" "files s = disk w" "\<not> terminated s"
    and c: "coordinator s = M_spawn 0 \<and> writer s = None \<and>
           \<not> finished (result_queue s) \<and> tr = []
         \<or> coordinator s = M_join 0 \<and> writer s = Some Wr_pop \<and>
           \<not> finished (result_queue s) \<and> tr = [Spawn_writer]
         \<or> coordinator s = M_join_writer \<and> writer s = Some Wr_pop \<and>
           finished (result_queue s) \<and> tr = [Spawn_writer, Set_finished]
         \<or> coordinator s = M_join_writer \<and> writer s = Some Wr_exited \<and>
           finished (result_queue s) \<and> tr = [Spawn_writer, Set_finished, Pop_false]
         \<or> coordinator s = M_return \<and> writer s = Some Wr_exited \<and>
           finished (result_queue s) \<and>
           tr = [Spawn_writer, Set_finished, Pop_false, Join_writer]"
    by (simp_all add: idle_inv_def)
  from run_final [OF assms(3)] i(3) have ret: "coordinator s = M_return" by simp
  with c have t: "tr = [Spawn_writer, Set_finished, Pop_false, Join_writer]"
    and e: "writer s = Some Wr_exited" "finished (result_queue s)"
    by auto
  have "process_pdf sched env p out n w = Inr (tr, w\<lparr>disk := files s\<rparr>)"
    using process_pdf_loaded [OF assms(2,3)] i(3) by simp
  with i t have "process_pdf sched env p out n w
           = Inr ([Spawn_writer, Set_finished, Pop_false, Join_writer], w)"
    by simp
  with i t ret e show ?thesis by (simp add: written_def)
qed

theorem no_workers_no_output_witness:
  "process_pdf [Writer, Main, Writer] torn_environment [''in'', ''torn.pdf''] [''out''] 0 empty_world
     = Inr ([Spawn_writer, Set_finished, Pop_false, Join_writer], empty_world)"
proof -
  let ?r = "run \<lparr>pdf_name_v = stem [''in'', ''torn.pdf''], doc = torn_document,
                  output_dir = [''out''], thread_count = 0\<rparr> [Writer, Main, Writer]
                (disk empty_world)"
  have l: "load_from_file torn_environment [''in'', ''torn.pdf''] = Some torn_document"
    by (simp add: torn_environment_def)
  have r: "?r = (fst ?r, snd ?r)" by simp
  have z: "(0::int) \<le> 0" by simp
  from no_workers_no_output [OF z l r] show ?thesis by simp
qed



section \<open>The directory loop\<close>

lemma extension_entry: "extension (path_append input_dir [name]) = extension_of name"
  by (auto simp: extension_def path_append_def is_absolute_def filename_def extension_of_def
                 no_extension_def)

lemma entry_path: "name \<noteq> ''/'' \<Longrightarrow> path_append input_dir [name] = input_dir @ [name]"
  by (simp add: path_append_def is_absolute_def)

lemma extension_of_slash: "extension_of ''/'' = []"
  by (simp add: extension_of_def no_extension_def)

lemma process_entries_selected:
  "process_entries sched env input_dir out n entries w
     = process_documents sched env out n (selected input_dir entries) w"
proof (induction entries arbitrary: w)
  case Nil
  show ?case by (simp add: selected_def)
next
  case (Cons e es)
  show ?case
  proof (cases "is_regular_file e \<and> extension_of (entry_name e) = ''.pdf''")
    case True
    then have "entry_name e \<noteq> ''/''" using extension_of_slash by auto
    then have p: "path_append input_dir [entry_name e] = input_dir @ [entry_name e]"
      by (rule entry_path)
    from True have s: "selected input_dir (e # es) = (input_dir @ [entry_name e]) # selected input_dir es"
      by (simp add: selected_def)
    from True have x: "extension (input_dir @ [entry_name e]) = ''.pdf''"
      using extension_entry [of input_dir "entry_name e"] by (simp add: p)
    from True show ?thesis
      by (simp add: p x s Cons.IH split: sum.splits prod.splits)
  next
    case False
    then have "selected input_dir (e # es) = selected input_dir es"
      by (auto simp: selected_def)
    with False Cons.IH show ?thesis
      by (auto simp: extension_entry)
  qed
qed

lemma extension_of_pdf_iff:
  "extension_of f = ''.pdf'' \<longleftrightarrow> (\<exists>s. s \<noteq> [] \<and> f = s @ ''.pdf'')"
proof
  assume e: "extension_of f = ''.pdf''"
  then have ne: "\<not> no_extension f" by (auto simp: extension_of_def)
  with e have t: "rev (takeWhile (\<lambda>c. c \<noteq> CHR ''.'') (rev f)) = ''pdf''"
    by (simp add: extension_of_def)
  then have tw: "takeWhile (\<lambda>c. c \<noteq> CHR ''.'') (rev f) = rev ''pdf''"
    by (metis rev_rev_ident)
  from ne have "CHR ''.'' \<in> set (tl f)" by (simp add: no_extension_def)
  then have "CHR ''.'' \<in> set (rev f)" by (cases f) auto
  then have dw: "dropWhile (\<lambda>c. c \<noteq> CHR ''.'') (rev f) \<noteq> []"
    and hd: "hd (dropWhile (\<lambda>c. c \<noteq> CHR ''.'') (rev f)) = CHR ''.''"
    using hd_dropWhile [of "\<lambda>c. c \<noteq> CHR ''.''" "rev f"] by auto
  define d where "d = tl (dropWhile (\<lambda>c. c \<noteq> CHR ''.'') (rev f))"
  from dw hd have "dropWhile (\<lambda>c. c \<noteq> CHR ''.'') (rev f) = CHR ''.'' # d"
    unfolding d_def by (cases "dropWhile (\<lambda>c. c \<noteq> CHR ''.'') (rev f)") auto
  with tw have "rev f = rev ''pdf'' @ CHR ''.'' # d"
    using takeWhile_dropWhile_id [of "\<lambda>c. c \<noteq> CHR ''.''" "rev f"] by simp
  then have "rev (rev f) = rev (rev ''pdf'' @ CHR ''.'' # d)" by (rule arg_cong)
  then have f: "f = rev d @ ''.pdf''" by simp
  have "rev d \<noteq> []"
  proof
    assume "rev d = []"
    with f have "f = ''.pdf''" by simp
    with ne show False by (simp add: no_extension_def)
  qed
  with f show "\<exists>s. s \<noteq> [] \<and> f = s @ ''.pdf''" by blast
next
  assume "\<exists>s. s \<noteq> [] \<and> f = s @ ''.pdf''"
  then obtain s where s: "s \<noteq> []" "f = s @ ''.pdf''" by blast
  then obtain c cs where c: "s = c # cs" by (cases s) auto
  with s have "\<not> no_extension f" by (auto simp: no_extension_def)
  moreover from s have "takeWhile (\<lambda>c. c \<noteq> CHR ''.'') (rev f) = ''fdp''"
    by simp
  ultimately show "extension_of f = ''.pdf''"
    by (simp add: extension_of_def)
qed

lemma extension_of_upper: "extension_of (s @ ''.PDF'') \<noteq> ''.pdf''"
  by (simp add: extension_of_pdf_iff)


text \<open>
  C10. The directory loop hands to \<^verbatim>\<open>process_pdf\<close> exactly the entries of the listing of
  the input directory that are regular files and whose extension is \<^verbatim>\<open>.pdf\<close>, in the
  order of the listing; every other entry has no effect. The extension of a file name is
  \<^verbatim>\<open>.pdf\<close> exactly when the name is a non-empty stem followed by the four characters
  \<^verbatim>\<open>.pdf\<close>; a name that ends in \<^verbatim>\<open>.PDF\<close> does not qualify.
\<close>

theorem only_pdf_extension_is_processed:
  "process_directory sched env input_dir out n w
     = process_documents sched env out n (selected input_dir (directory_iterator env input_dir)) w \<and>
   (p \<in> set (selected input_dir (directory_iterator env input_dir)) \<longleftrightarrow>
      (\<exists>e. e \<in> set (directory_iterator env input_dir) \<and> p = input_dir @ [entry_name e] \<and>
           is_regular_file e \<and> extension_of (entry_name e) = ''.pdf'')) \<and>
   (extension_of f = ''.pdf'' \<longleftrightarrow> (\<exists>s. s \<noteq> [] \<and> f = s @ ''.pdf'')) \<and>
   extension_of (s @ ''.PDF'') \<noteq> ''.pdf''"
proof -
  have "p \<in> set (selected input_dir (directory_iterator env input_dir)) \<longleftrightarrow>
      (\<exists>e. e \<in> set (directory_iterator env input_dir) \<and> p = input_dir @ [entry_name e] \<and>
           is_regular_file e \<and> extension_of (entry_name e) = ''.pdf'')"
    by (auto simp: selected_def)
  then show ?thesis
    using extension_of_pdf_iff [of f] extension_of_upper [of s]
    by (simp add: process_directory_def process_entries_selected)
qed

theorem only_pdf_extension_is_processed_witness:
  "process_directory (\<lambda>p. []) mixed_environment [''in''] [''out''] 2 input_world
     = process_documents (\<lambda>p. []) mixed_environment [''out''] 2
         [[''in'', ''torn.pdf''], [''in'', ''missing.pdf'']] input_world \<and>
   [''in'', ''SHOUT.PDF''] \<notin> set (selected [''in''] (directory_iterator mixed_environment [''in''])) \<and>
   extension_of ''SHOUT.PDF'' \<noteq> ''.pdf''"
proof -
  have e: "extension_of ''torn.pdf'' = ''.pdf''" "extension_of ''missing.pdf'' = ''.pdf''"
    "extension_of ''SHOUT.PDF'' \<noteq> ''.pdf''" "extension_of ''notes.txt'' \<noteq> ''.pdf''"
    by (simp_all add: extension_of_def no_extension_def)
  have s: "selected [''in''] (directory_iterator mixed_environment [''in''])
             = [[''in'', ''torn.pdf''], [''in'', ''missing.pdf'']]"
    by (simp add: selected_def mixed_environment_def e)
  from only_pdf_extension_is_processed
         [of "\<lambda>p. []" mixed_environment "[''in'']" "[''out'']" 2 input_world
             "[''in'', ''SHOUT.PDF'']" "''SHOUT.PDF''" "''SHOUT''"]
  show ?thesis by (simp add: s e)
qed

text \<open>
  C7. \<^verbatim>\<open>process_pdf\<close> on a document that does not open prints the diagnostic and returns:
  whatever the schedule, no thread takes a step (the trace is empty) and the file system
  is as before. The directory loop then goes on with the rest of the listing.
\<close>

theorem unopenable_document_is_reported_and_skipped:
  assumes "load_from_file env (path_append input_dir [entry_name entry]) = None"
  shows "process_pdf sch env (path_append input_dir [entry_name entry]) out n w
           = Inr ([], w\<lparr>cerr := cerr w @
                          [Failed_to_open_PDF (path_append input_dir [entry_name entry])]\<rparr>) \<and>
         disk (w\<lparr>cerr := cerr w @
                  [Failed_to_open_PDF (path_append input_dir [entry_name entry])]\<rparr>) = disk w \<and>
         (is_regular_file entry \<and>
          extension (path_append input_dir [entry_name entry]) = ''.pdf'' \<longrightarrow>
            process_entries sched env input_dir out n (entry # rest) w
              = process_entries sched env input_dir out n rest
                  (w\<lparr>cerr := cerr w @
                        [Failed_to_open_PDF (path_append input_dir [entry_name entry])]\<rparr>))"
  using assms by (simp add: process_pdf_not_loaded)

theorem unopenable_document_is_reported_and_skipped_witness:
  "process_pdf [Main, Worker 0, Writer] mixed_environment [''in'', ''missing.pdf''] [''out''] 2
       input_world
     = Inr ([], input_world\<lparr>cerr := [Failed_to_open_PDF [''in'', ''missing.pdf'']]\<rparr>) \<and>
   process_entries (\<lambda>p. []) mixed_environment [''in''] [''out''] 2
       [\<lparr>entry_name = ''missing.pdf'', is_regular_file = True\<rparr>,
        \<lparr>entry_name = ''notes.txt'', is_regular_file = True\<rparr>] input_world
     = process_entries (\<lambda>p. []) mixed_environment [''in''] [''out''] 2
         [\<lparr>entry_name = ''notes.txt'', is_regular_file = True\<rparr>]
         (input_world\<lparr>cerr := [Failed_to_open_PDF [''in'', ''missing.pdf'']]\<rparr>)"
proof -
  have p: "path_append [''in''] [entry_name \<lparr>entry_name = ''missing.pdf'', is_regular_file = True\<rparr>]
             = [''in'', ''missing.pdf'']"
    by (simp add: path_append_def is_absolute_def)
  have "load_from_file mixed_environment [''in'', ''missing.pdf''] = None"
    by (simp add: mixed_environment_def)
  then have l: "load_from_file mixed_environment
             (path_append [''in''] [entry_name \<lparr>entry_name = ''missing.pdf'', is_regular_file = True\<rparr>])
           = None"
    by (simp only: p)
  have x: "extension [''in'', ''missing.pdf''] = ''.pdf''"
    by (simp add: extension_def filename_def extension_of_def no_extension_def)
  have c: "cerr input_world = []" by (simp add: input_world_def)
  from unopenable_document_is_reported_and_skipped
         [OF l, of "[Main, Worker 0, Writer]" "[''out'']" 2 input_world "\<lambda>p. []"
            "[\<lparr>entry_name = ''notes.txt'', is_regular_file = True\<rparr>]"]
  show ?thesis unfolding p by (simp add: x c)
qed


section \<open>Exit codes\<close>

lemma process_documents_none_open:
  "\<forall>p \<in> set ps. load_from_file env p = None \<Longrightarrow>
     process_documents sched env out n ps w
       = Inr (w\<lparr>cerr := cerr w @ map Failed_to_open_PDF ps\<rparr>)"
  by (induction ps arbitrary: w) (simp_all add: process_pdf_not_loaded)

lemma selected_subset:
  "p \<in> set (selected input_dir entries) \<Longrightarrow> \<exists>e \<in> set entries. p = input_dir @ [entry_name e]"
  by (auto simp: selected_def)

lemma process_pdf_returns: "process_pdf sched env p out n w \<noteq> Inl Never_returns"
proof (cases "load_from_file env p")
  case None
  then show ?thesis by (simp add: process_pdf_def)
next
  case (Some d)
  obtain s tr where
    r: "run \<lparr>pdf_name_v = stem p, doc = d, output_dir = out, thread_count = n\<rparr> sched (disk w)
          = (s, tr)"
    by (cases "run \<lparr>pdf_name_v = stem p, doc = d, output_dir = out, thread_count = n\<rparr> sched
                 (disk w)")
  from process_pdf_loaded [OF Some r] show ?thesis by simp
qed

lemma process_documents_returns: "process_documents sched env out n ps w \<noteq> Inl Never_returns"
proof (induction ps arbitrary: w)
  case Nil
  show ?case by simp
next
  case (Cons p ps)
  show ?case
  proof (cases "process_pdf (sched p) env p out n w")
    case (Inl f)
    with process_pdf_returns [of "sched p" env p out n w] show ?thesis by simp
  next
    case (Inr a)
    with Cons show ?thesis by (cases a) simp
  qed
qed

lemma process_directory_returns:
  "process_directory sched env input_dir out n w \<noteq> Inl Never_returns"
  by (simp add: process_directory_def process_entries_selected process_documents_returns)

lemma status_queries:
  "exists env fs p = None \<longleftrightarrow> status_error env p"
  "is_directory env fs p = None \<longleftrightarrow> status_error env p"
  "exists env fs p = Some b \<longleftrightarrow> \<not> status_error env p \<and> (b \<longleftrightarrow> p \<noteq> [] \<and> fs p \<noteq> None)"
  "is_directory env fs p = Some b \<longleftrightarrow>
     \<not> status_error env p \<and> (b \<longleftrightarrow> p \<noteq> [] \<and> fs p = Some Directory)"
  by (auto simp: exists_def is_directory_def status_def)

lemma main_cases:
  "main argv env sched w =
     (if length argv < 4 then Inr (1, w\<lparr>cerr := cerr w @ [Usage (concat (take 1 argv))]\<rparr>)
      else if stoi (argv ! 3) = None then Inl Uncaught_exception
      else if status_error env (path_of_string (argv ! 1)) then Inl Uncaught_exception
      else if is_directory env (disk w) (path_of_string (argv ! 1)) = Some False
      then Inr (1, w\<lparr>cerr := cerr w @ [Input_directory_invalid]\<rparr>)
      else case create_directories (disk w) (path_of_string (argv ! 2)) of
             None \<Rightarrow> Inl Uncaught_exception
           | Some d \<Rightarrow>
               (case process_directory sched env (path_of_string (argv ! 1))
                       (path_of_string (argv ! 2)) (the (stoi (argv ! 3))) (w\<lparr>disk := d\<rparr>) of
                  Inl f \<Rightarrow> Inl f
                | Inr w' \<Rightarrow> Inr (0, w')))"
  by (auto simp: main_def exists_def is_directory_def status_def split: option.splits)

text \<open>
  C5. What the code does: \<open>main\<close> returns 1, with the file system untouched, when fewer
  than three arguments are given, and when at least three are given, the thread count
  parses, the status of the input path can be read, and the input directory does not exist
  or is not a directory. These are the only runs with exit code 1: further arguments are
  ignored. A thread count that does not parse ends the process in \<^verbatim>\<open>std::terminate\<close>
  before the input directory is looked at, and so does, with a thread count that parses,
  an input path whose status cannot be read. Every other run in which \<open>main\<close> returns has
  exit code 0, and \<open>main\<close> returns exactly when, besides, the output directory can be
  created and no document's pipeline ends in an exception; a run in which documents of the
  directory do not open is one of them.
\<close>

theorem main_exit_code:
  "(length argv < 4 \<longrightarrow>
      main argv env sched w = Inr (1, w\<lparr>cerr := cerr w @ [Usage (concat (take 1 argv))]\<rparr>)) \<and>
   (4 \<le> length argv \<and> stoi (argv ! 3) = None \<longrightarrow> main argv env sched w = Inl Uncaught_exception) \<and>
   (4 \<le> length argv \<and> stoi (argv ! 3) \<noteq> None \<and> status_error env (path_of_string (argv ! 1)) \<longrightarrow>
      exists env (disk w) (path_of_string (argv ! 1)) = None \<and>
      main argv env sched w = Inl Uncaught_exception) \<and>
   (4 \<le> length argv \<and> stoi (argv ! 3) \<noteq> None \<and>
    (exists env (disk w) (path_of_string (argv ! 1)) = Some False \<or>
     is_directory env (disk w) (path_of_string (argv ! 1)) = Some False) \<longrightarrow>
      main argv env sched w = Inr (1, w\<lparr>cerr := cerr w @ [Input_directory_invalid]\<rparr>)) \<and>
   (exit_code (main argv env sched w) = Some 1 \<longleftrightarrow>
      length argv < 4 \<or>
      stoi (argv ! 3) \<noteq> None \<and>
      (exists env (disk w) (path_of_string (argv ! 1)) = Some False \<or>
       is_directory env (disk w) (path_of_string (argv ! 1)) = Some False)) \<and>
   (main argv env sched w = Inr (0, w') \<longleftrightarrow>
      4 \<le> length argv \<and>
      (\<exists>n d. stoi (argv ! 3) = Some n \<and>
         is_directory env (disk w) (path_of_string (argv ! 1)) = Some True \<and>
         create_directories (disk w) (path_of_string (argv ! 2)) = Some d \<and>
         process_directory sched env (path_of_string (argv ! 1)) (path_of_string (argv ! 2)) n
           (w\<lparr>disk := d\<rparr>) = Inr w')) \<and>
   (exit_code (main argv env sched w) = Some 0 \<longleftrightarrow>
      4 \<le> length argv \<and>
      (\<exists>n d. stoi (argv ! 3) = Some n \<and>
         is_directory env (disk w) (path_of_string (argv ! 1)) = Some True \<and>
         create_directories (disk w) (path_of_string (argv ! 2)) = Some d \<and>
         process_directory sched env (path_of_string (argv ! 1)) (path_of_string (argv ! 2)) n
           (w\<lparr>disk := d\<rparr>) \<noteq> Inl Uncaught_exception)) \<and>
   (exit_code (main argv env sched w) = None \<longleftrightarrow> main argv env sched w = Inl Uncaught_exception) \<and>
   (exit_code (main argv env sched w) = None \<or> exit_code (main argv env sched w) = Some 0 \<or>
    exit_code (main argv env sched w) = Some 1) \<and>
   (4 \<le> length argv \<and> stoi (argv ! 3) \<noteq> None \<and>
    is_directory env (disk w) (path_of_string (argv ! 1)) = Some True \<and>
    create_directories (disk w) (path_of_string (argv ! 2)) \<noteq> None \<and>
    (\<forall>e. e \<in> set (directory_iterator env (path_of_string (argv ! 1))) \<longrightarrow>
       load_from_file env (path_of_string (argv ! 1) @ [entry_name e]) = None) \<longrightarrow>
      exit_code (main argv env sched w) = Some 0)"
proof -
  define inp where "inp = path_of_string (argv ! 1)"
  define out where "out = path_of_string (argv ! 2)"
  note main_cases = main_cases [of argv env sched w, folded inp_def out_def]
  note q = status_queries [of env "disk w" inp]
  have nr: "process_directory sched env inp out n (w\<lparr>disk := d\<rparr>) \<noteq> Inl Never_returns" for n d
    by (rule process_directory_returns)
  have 1: "length argv < 4 \<longrightarrow>
      main argv env sched w = Inr (1, w\<lparr>cerr := cerr w @ [Usage (concat (take 1 argv))]\<rparr>)"
    by (simp add: main_cases)
  have 2: "4 \<le> length argv \<and> stoi (argv ! 3) = None \<longrightarrow> main argv env sched w = Inl Uncaught_exception"
    by (simp add: main_cases)
  have 3: "4 \<le> length argv \<and> stoi (argv ! 3) \<noteq> None \<and> status_error env inp \<longrightarrow>
      exists env (disk w) inp = None \<and> main argv env sched w = Inl Uncaught_exception"
    using q by (simp add: main_cases)
  have 4: "4 \<le> length argv \<and> stoi (argv ! 3) \<noteq> None \<and>
    (exists env (disk w) inp = Some False \<or> is_directory env (disk w) inp = Some False) \<longrightarrow>
      main argv env sched w = Inr (1, w\<lparr>cerr := cerr w @ [Input_directory_invalid]\<rparr>)"
    by (auto simp: main_cases q)
  have 5: "exit_code (main argv env sched w) = Some 1 \<longleftrightarrow>
      length argv < 4 \<or>
      stoi (argv ! 3) \<noteq> None \<and>
      (exists env (disk w) inp = Some False \<or> is_directory env (disk w) inp = Some False)"
    by (auto simp: main_cases exit_code_def q split: option.splits sum.splits)
  have 6: "main argv env sched w = Inr (0, w') \<longleftrightarrow>
      4 \<le> length argv \<and>
      (\<exists>n d. stoi (argv ! 3) = Some n \<and>
         is_directory env (disk w) inp = Some True \<and>
         create_directories (disk w) out = Some d \<and>
         process_directory sched env inp out n (w\<lparr>disk := d\<rparr>) = Inr w')"
    by (auto simp: main_cases q split: option.splits sum.splits)
  have 7: "exit_code (main argv env sched w) = Some 0 \<longleftrightarrow>
      4 \<le> length argv \<and>
      (\<exists>n d. stoi (argv ! 3) = Some n \<and>
         is_directory env (disk w) inp = Some True \<and>
         create_directories (disk w) out = Some d \<and>
         process_directory sched env inp out n (w\<lparr>disk := d\<rparr>) \<noteq> Inl Uncaught_exception)"
  proof (cases "length argv < 4 \<or> stoi (argv ! 3) = None \<or> status_error env inp \<or>
                is_directory env (disk w) inp = Some False \<or>
                create_directories (disk w) out = None")
    case True
    then show ?thesis
      by (auto simp: main_cases exit_code_def q)
  next
    case False
    then obtain n d where n: "stoi (argv ! 3) = Some n"
      and d: "create_directories (disk w) out = Some d"
      by auto
    from False have t: "is_directory env (disk w) inp = Some True"
      by (auto simp: q)
    show ?thesis
    proof (cases "process_directory sched env inp out n (w\<lparr>disk := d\<rparr>)")
      case (Inl f)
      with nr [of n d] have "f = Uncaught_exception" by (cases f) simp_all
      with Inl False n d t show ?thesis
        by (simp add: main_cases exit_code_def)
    next
      case (Inr w1)
      with False n d t show ?thesis
        by (simp add: main_cases exit_code_def)
    qed
  qed
  have 8: "exit_code (main argv env sched w) = None \<longleftrightarrow> main argv env sched w = Inl Uncaught_exception"
  proof (cases "length argv < 4 \<or> stoi (argv ! 3) = None \<or> status_error env inp \<or>
                is_directory env (disk w) inp = Some False \<or>
                create_directories (disk w) out = None")
    case True
    then show ?thesis
      by (auto simp: main_cases exit_code_def)
  next
    case False
    then obtain n d where n: "stoi (argv ! 3) = Some n"
      and d: "create_directories (disk w) out = Some d"
      by auto
    show ?thesis
    proof (cases "process_directory sched env inp out n (w\<lparr>disk := d\<rparr>)")
      case (Inl f)
      with nr [of n d] have "f = Uncaught_exception" by (cases f) simp_all
      with Inl False n d show ?thesis
        by (simp add: main_cases exit_code_def)
    next
      case (Inr w1)
      with False n d show ?thesis
        by (simp add: main_cases exit_code_def)
    qed
  qed
  have 9: "exit_code (main argv env sched w) = None \<or> exit_code (main argv env sched w) = Some 0 \<or>
    exit_code (main argv env sched w) = Some 1"
    by (auto simp: main_cases exit_code_def split: option.splits sum.splits)
  have 10: "exit_code (main argv env sched w) = Some 0"
    if a: "4 \<le> length argv" and n: "stoi (argv ! 3) \<noteq> None"
      and x: "is_directory env (disk w) inp = Some True"
      and c: "create_directories (disk w) out \<noteq> None"
      and l: "\<forall>e. e \<in> set (directory_iterator env inp) \<longrightarrow>
       load_from_file env (inp @ [entry_name e]) = None"
  proof -
    from n obtain k where k: "stoi (argv ! 3) = Some k" by auto
    from c obtain d where d: "create_directories (disk w) out = Some d"
      by auto
    have "\<forall>p \<in> set (selected inp (directory_iterator env inp)). load_from_file env p = None"
      using l selected_subset [of _ inp "directory_iterator env inp"] by fastforce
    then have "process_directory sched env inp out k (w\<lparr>disk := d\<rparr>)
        = Inr (w\<lparr>disk := d\<rparr>\<lparr>cerr := cerr (w\<lparr>disk := d\<rparr>) @
                 map Failed_to_open_PDF (selected inp (directory_iterator env inp))\<rparr>)"
      unfolding process_directory_def process_entries_selected
      by (rule process_documents_none_open)
    with a k x d show ?thesis
      by (simp add: main_cases exit_code_def q)
  qed
  from 1 2 3 4 5 6 7 8 9 10 show ?thesis
    unfolding inp_def out_def by blast
qed

theorem main_exit_code_witness:
  "main [''pdf_split'', ''in''] mixed_environment (\<lambda>p. []) input_world
     = Inr (1, input_world\<lparr>cerr := [Usage ''pdf_split'']\<rparr>) \<and>
   main [''pdf_split'', ''nowhere'', ''out'', ''2''] mixed_environment (\<lambda>p. []) input_world
     = Inr (1, input_world\<lparr>cerr := [Input_directory_invalid]\<rparr>) \<and>
   main [''pdf_split'', ''nowhere'', ''out'', ''two''] mixed_environment (\<lambda>p. []) input_world
     = Inl Uncaught_exception \<and>
   main [''pdf_split'', long_name, ''out'', ''2''] mixed_environment (\<lambda>p. []) input_world
     = Inl Uncaught_exception \<and>
   exit_code (main [''pdf_split'', ''in'', ''out'', ''2''] mixed_environment (\<lambda>p. []) input_world)
     = Some 0 \<and>
   cerr (snd (projr (main [''pdf_split'', ''in'', ''out'', ''2''] mixed_environment (\<lambda>p. [])
                       input_world)))
     = [Failed_to_open_PDF [''in'', ''missing.pdf'']]"
proof -
  have s: "stoi ''2'' = Some 2" "stoi ''two'' = None"
    by (simp_all add: stoi_def isspace_def isdigit_def)
  have p: "path_of_string ''nowhere'' = [''nowhere'']" "path_of_string ''in'' = [''in'']"
    "path_of_string ''out'' = [''out'']"
    by (simp_all add: path_of_string_def)
  have l: "path_of_string long_name = [long_name]" by code_simp
  have e: "status_error mixed_environment [long_name]" by code_simp
  have d: "exists mixed_environment (disk input_world) [''nowhere''] = Some False"
    "is_directory mixed_environment (disk input_world) [''in''] = Some True"
    by code_simp+
  have c: "cerr input_world = []" by (simp add: input_world_def)
  have a: "main [''pdf_split'', ''in''] mixed_environment (\<lambda>p. []) input_world
     = Inr (1, input_world\<lparr>cerr := [Usage ''pdf_split'']\<rparr>)"
    using main_exit_code [of "[''pdf_split'', ''in'']" mixed_environment "\<lambda>p. []" input_world]
    by (simp add: c)
  have b: "main [''pdf_split'', ''nowhere'', ''out'', ''2''] mixed_environment (\<lambda>p. []) input_world
     = Inr (1, input_world\<lparr>cerr := [Input_directory_invalid]\<rparr>)"
    using main_exit_code [of "[''pdf_split'', ''nowhere'', ''out'', ''2'']" mixed_environment
        "\<lambda>p. []" input_world]
    by (simp add: c s p d)
  have f: "main [''pdf_split'', ''nowhere'', ''out'', ''two''] mixed_environment (\<lambda>p. []) input_world
     = Inl Uncaught_exception"
    using main_exit_code [of "[''pdf_split'', ''nowhere'', ''out'', ''two'']" mixed_environment
        "\<lambda>p. []" input_world]
    by (simp add: s)
  have g: "main [''pdf_split'', long_name, ''out'', ''2''] mixed_environment (\<lambda>p. []) input_world
     = Inl Uncaught_exception"
    using main_exit_code [of "[''pdf_split'', long_name, ''out'', ''2'']" mixed_environment
        "\<lambda>p. []" input_world]
    by (simp add: s l e)
  obtain fs where fs: "create_directories (disk input_world) [''out''] = Some fs"
    by (simp add: input_world_def create_directories_def)
  have "\<not> isl (process_directory (\<lambda>p. []) mixed_environment [''in''] [''out''] 2
          (input_world\<lparr>disk := the (create_directories (disk input_world) [''out''])\<rparr>))"
    by code_simp
  with fs have r: "process_directory (\<lambda>p. []) mixed_environment [''in''] [''out''] 2
          (input_world\<lparr>disk := fs\<rparr>) \<noteq> Inl Uncaught_exception"
    by auto
  have h: "exit_code (main [''pdf_split'', ''in'', ''out'', ''2''] mixed_environment (\<lambda>p. [])
                       input_world) = Some 0"
    using main_exit_code [of "[''pdf_split'', ''in'', ''out'', ''2'']" mixed_environment
        "\<lambda>p. []" input_world] fs r
    by (simp add: s p d)
  have i: "cerr (snd (projr (main [''pdf_split'', ''in'', ''out'', ''2''] mixed_environment (\<lambda>p. [])
                       input_world)))
     = [Failed_to_open_PDF [''in'', ''missing.pdf'']]"
    by code_simp
  from a b f g h i show ?thesis by (intro conjI)
qed

theorem main_exit_code_counterexample:
  "length [''pdf_split'', ''in'', ''out'', ''2'', ''extra''] \<noteq> 4 \<and>
   exit_code (main [''pdf_split'', ''in'', ''out'', ''2'', ''extra''] torn_environment (\<lambda>p. [])
                input_world) = Some 0 \<and>
   disk input_world (path_of_string ''nowhere'') = None \<and>
   exit_code (main [''pdf_split'', ''nowhere'', ''out'', ''two''] torn_environment (\<lambda>p. [])
                input_world) = None \<and>
   disk input_world (path_of_string long_name) = None \<and>
   exit_code (main [''pdf_split'', long_name, ''out'', ''2''] torn_environment (\<lambda>p. [])
                input_world) = None"
proof -
  have s: "stoi ''2'' = Some 2" "stoi ''two'' = None"
    by (simp_all add: stoi_def isspace_def isdigit_def)
  have p: "path_of_string ''nowhere'' = [''nowhere'']" "path_of_string ''in'' = [''in'']"
    "path_of_string ''out'' = [''out'']"
    by (simp_all add: path_of_string_def)
  have l: "path_of_string long_name = [long_name]" by code_simp
  have n: "long_name \<noteq> ''in''" by code_simp
  have e: "name_too_long [long_name]" "\<not> name_too_long [''in'']" by code_simp+
  have 1: "exit_code (main [''pdf_split'', ''in'', ''out'', ''2'', ''extra''] torn_environment (\<lambda>p. [])
                input_world) = Some 0"
    by (simp add: main_def exit_code_def s p e exists_def is_directory_def status_def
                  input_world_def create_directories_def process_directory_def
                  torn_environment_def)
  have 2: "exit_code (main [''pdf_split'', ''nowhere'', ''out'', ''two''] torn_environment (\<lambda>p. [])
                input_world) = None"
    by (simp add: main_def exit_code_def s)
  have 3: "exit_code (main [''pdf_split'', long_name, ''out'', ''2''] torn_environment (\<lambda>p. [])
                input_world) = None"
    by (simp add: main_def exit_code_def s l e exists_def status_def torn_environment_def)
  from 1 2 3 n show ?thesis
    by (simp add: p l input_world_def)
qed

section \<open>What the writer does to the file system\<close>

lemma dirs_longer: "q \<in> set (dirs pre cs) \<Longrightarrow> length pre < length q \<and> length q \<le> length pre + length cs"
  by (induction cs arbitrary: pre) fastforce+

lemma dirs_take:
  "q \<in> set (dirs pre cs) \<longleftrightarrow> (\<exists>k. 0 < k \<and> k \<le> length cs \<and> q = pre @ take k cs)"
proof (induction cs arbitrary: pre)
  case Nil
  show ?case by simp
next
  case (Cons c cs)
  show ?case
  proof
    assume "q \<in> set (dirs pre (c # cs))"
    then have "q = pre @ [c] \<or> q \<in> set (dirs (pre @ [c]) cs)" by simp
    then show "\<exists>k. 0 < k \<and> k \<le> length (c # cs) \<and> q = pre @ take k (c # cs)"
    proof
      assume "q = pre @ [c]"
      then have "0 < (1::nat) \<and> 1 \<le> length (c # cs) \<and> q = pre @ take 1 (c # cs)" by simp
      then show ?thesis by blast
    next
      assume "q \<in> set (dirs (pre @ [c]) cs)"
      with Cons obtain k where "0 < k" "k \<le> length cs" "q = (pre @ [c]) @ take k cs" by blast
      then have "0 < Suc k \<and> Suc k \<le> length (c # cs) \<and> q = pre @ take (Suc k) (c # cs)" by simp
      then show ?thesis by blast
    qed
  next
    assume "\<exists>k. 0 < k \<and> k \<le> length (c # cs) \<and> q = pre @ take k (c # cs)"
    then obtain k where k: "0 < k" "k \<le> length (c # cs)" "q = pre @ take k (c # cs)" by blast
    then obtain j where j: "k = Suc j" by (cases k) auto
    show "q \<in> set (dirs pre (c # cs))"
    proof (cases j)
      case 0
      with k j show ?thesis by simp
    next
      case (Suc i)
      with k j have "0 < j \<and> j \<le> length cs \<and> q = (pre @ [c]) @ take j cs" by simp
      with Cons have "q \<in> set (dirs (pre @ [c]) cs)" by blast
      then show ?thesis by simp
    qed
  qed
qed

lemma mkdirs_None_iff:
  "mkdirs fs pre cs = None \<longleftrightarrow> (\<exists>q \<in> set (dirs pre cs). \<exists>c. fs q = Some (Regular c))"
proof (induction cs arbitrary: fs pre)
  case Nil
  show ?case by simp
next
  case (Cons c cs)
  have other: "(fs(pre @ [c] \<mapsto> Directory)) q = fs q" if "q \<in> set (dirs (pre @ [c]) cs)" for q
    using dirs_longer [OF that] by auto
  show ?case
  proof (cases "fs (pre @ [c])")
    case None
    then have "mkdirs fs pre (c # cs) = mkdirs (fs(pre @ [c] \<mapsto> Directory)) (pre @ [c]) cs"
      by simp
    moreover have "mkdirs (fs(pre @ [c] \<mapsto> Directory)) (pre @ [c]) cs = None \<longleftrightarrow>
        (\<exists>q \<in> set (dirs (pre @ [c]) cs). \<exists>x. (fs(pre @ [c] \<mapsto> Directory)) q = Some (Regular x))"
      by (rule Cons)
    moreover have "(\<exists>q \<in> set (dirs (pre @ [c]) cs). \<exists>x. (fs(pre @ [c] \<mapsto> Directory)) q = Some (Regular x))
        \<longleftrightarrow> (\<exists>q \<in> set (dirs (pre @ [c]) cs). \<exists>x. fs q = Some (Regular x))"
      using other by (intro bex_cong refl) (simp only:)
    moreover have "(\<exists>q \<in> set (dirs pre (c # cs)). \<exists>x. fs q = Some (Regular x))
        \<longleftrightarrow> (\<exists>q \<in> set (dirs (pre @ [c]) cs). \<exists>x. fs q = Some (Regular x))"
      using None by simp
    ultimately show ?thesis by (simp only:)
  next
    case (Some nd)
    with Cons [of fs "pre @ [c]"] show ?thesis by (cases nd) auto
  qed
qed

lemma mkdirs_Some:
  assumes "mkdirs fs pre cs = Some fs'"
  shows "fs' q = (if q \<in> set (dirs pre cs) then Some Directory else fs q)"
  using assms
proof (induction cs arbitrary: fs pre)
  case Nil
  then show ?case by simp
next
  case (Cons c cs)
  have notin: "pre @ [c] \<notin> set (dirs (pre @ [c]) cs)"
    using dirs_longer [of "pre @ [c]" "pre @ [c]" cs] by auto
  show ?case
  proof (cases "fs (pre @ [c])")
    case None
    with Cons.prems have "mkdirs (fs(pre @ [c] \<mapsto> Directory)) (pre @ [c]) cs = Some fs'" by simp
    from Cons.IH [OF this] notin show ?thesis by auto
  next
    case (Some nd)
    show ?thesis
    proof (cases nd)
      case Directory
      with Some Cons.prems have "mkdirs fs (pre @ [c]) cs = Some fs'" by simp
      from Cons.IH [OF this] Some Directory show ?thesis by auto
    next
      case (Regular x)
      with Some Cons.prems show ?thesis by simp
    qed
  qed
qed


lemma digit_not_slash: "k < 10 \<Longrightarrow> char_of (48 + k :: nat) \<noteq> CHR ''/''"
proof
  assume k: "k < 10" and e: "char_of (48 + k :: nat) = CHR ''/''"
  from e have "(of_char (char_of (48 + k :: nat)) :: nat) = of_char CHR ''/''" by simp
  with k show False by (simp add: take_bit_eq_mod)
qed

lemma digits_ok: "digits n \<noteq> [] \<and> CHR ''/'' \<notin> set (digits n)"
proof (induction n rule: digits.induct)
  case (1 n)
  show ?case
  proof (cases "n < 10")
    case True
    then show ?thesis using digit_not_slash [of n] by (simp add: digits.simps [of n])
  next
    case False
    with 1 digit_not_slash [of "n mod 10"] show ?thesis
      by (simp add: digits.simps [of n])
  qed
qed

lemma to_string_ok: "to_string i \<noteq> [] \<and> CHR ''/'' \<notin> set (to_string i)"
  using digits_ok by (simp add: to_string_def)

lemma components_no_slash:
  "CHR ''/'' \<notin> set a \<Longrightarrow> components cur (a @ b) = components (cur @ a) b"
  by (induction a arbitrary: cur) auto

lemma components_word: "CHR ''/'' \<notin> set a \<Longrightarrow> a \<noteq> [] \<Longrightarrow> components [] a = [a]"
  using components_no_slash [of a "[]" "[]"] by simp

lemma path_of_two:
  assumes "name \<noteq> []" "CHR ''/'' \<notin> set name" "ds \<noteq> []" "CHR ''/'' \<notin> set ds"
  shows "path_of_string (name @ CHR ''/'' # ds) = [name, ds]"
proof -
  from assms(1,2) obtain c cs where c: "name = c # cs" "c \<noteq> CHR ''/''"
    by (cases name) auto
  have "components [] (name @ CHR ''/'' # ds) = components name (CHR ''/'' # ds)"
    using components_no_slash [OF assms(2), of "[]"] by simp
  also have "\<dots> = name # components [] ds" using assms(1) by simp
  also have "components [] ds = [ds]" using assms(3,4) by (simp add: components_word)
  finally show ?thesis using c by (simp add: path_of_string_def)
qed

lemma page_dir_eq:
  assumes "pdf_name r \<noteq> []" "CHR ''/'' \<notin> set (pdf_name r)"
  shows "page_dir out r = out @ [pdf_name r, to_string (page_id r)]"
  using assms to_string_ok [of "page_id r"]
  by (auto simp: page_dir_def path_of_two path_append_def is_absolute_def)

lemma text_file_eq: "text_file out r = page_dir out r @ [''text_layer.txt'']"
  by (simp add: text_file_def path_of_string_def path_append_def is_absolute_def)

lemma stem_of_ok:
  assumes "f \<noteq> []" "CHR ''/'' \<notin> set f"
  shows "stem_of f \<noteq> [] \<and> CHR ''/'' \<notin> set (stem_of f)"
proof (cases "no_extension f")
  case True
  with assms show ?thesis by (simp add: stem_of_def)
next
  case False
  let ?d = "dropWhile (\<lambda>c. c \<noteq> CHR ''.'') (rev f)"
  from False have s: "stem_of f = rev (tl ?d)" by (simp add: stem_of_def)
  have sub: "set (tl ?d) \<subseteq> set f"
  proof
    fix x
    assume "x \<in> set (tl ?d)"
    then have "x \<in> set ?d" by (cases ?d) auto
    then have "x \<in> set (rev f)" by (rule set_dropWhileD)
    then show "x \<in> set f" by simp
  qed
  from False obtain c cs where f: "f = c # cs" "CHR ''.'' \<in> set cs"
    by (cases f) (auto simp: no_extension_def)
  then have "rev f = rev cs @ [c]" by simp
  moreover from f have "dropWhile (\<lambda>c. c \<noteq> CHR ''.'') (rev cs) \<noteq> []"
    by simp
  ultimately have "?d = dropWhile (\<lambda>c. c \<noteq> CHR ''.'') (rev cs) @ [c]"
    by simp
  with \<open>dropWhile (\<lambda>c. c \<noteq> CHR ''.'') (rev cs) \<noteq> []\<close> have "tl ?d \<noteq> []"
    by (cases "dropWhile (\<lambda>c. c \<noteq> CHR ''.'') (rev cs)") auto
  with s sub assms show ?thesis by auto
qed

lemma dirs_self: "D \<noteq> [] \<Longrightarrow> D \<in> set (dirs [] D)"
  using dirs_take [of D "[]" D] by auto

lemma dirs_not_below: "D @ [x] \<notin> set (dirs [] D)"
  using dirs_longer [of "D @ [x]" "[]" D] by auto

lemma write_result_None_iff:
  assumes "page_dir out r \<noteq> []"
  shows "write_result out r fs = None \<longleftrightarrow>
           (\<exists>q \<in> set (dirs [] (page_dir out r)). \<exists>c. fs q = Some (Regular c))"
proof -
  have "write_result out r fs = None \<longleftrightarrow> mkdirs fs [] (page_dir out r) = None"
    using assms by (auto simp: write_result_def create_directories_def split: option.splits)
  then show ?thesis by (simp only: mkdirs_None_iff)
qed

lemma write_result_Some:
  assumes "page_dir out r \<noteq> []" "write_result out r fs = Some fs'"
  shows "fs' q =
           (if q \<in> set (dirs [] (page_dir out r)) then Some Directory
            else if q = text_file out r \<and> fs q \<noteq> Some Directory then Some (Regular (text_layer r))
            else fs q)"
proof -
  let ?D = "page_dir out r"
  let ?T = "text_file out r"
  from assms obtain fs1 where m: "mkdirs fs [] ?D = Some fs1"
    and w: "fs' = ofstream_write fs1 ?T (text_layer r)"
    by (auto simp: write_result_def create_directories_def split: option.splits)
  note f1 = mkdirs_Some [OF m]
  have T: "?T = ?D @ [''text_layer.txt'']" by (rule text_file_eq)
  have "fs1 ?D = Some Directory" using f1 [of ?D] dirs_self [OF assms(1)] by simp
  moreover have "fs1 ?T = fs ?T" using f1 [of ?T] dirs_not_below [of ?D] by (simp add: T)
  ultimately have "fs' = (if fs ?T = Some Directory then fs1 else fs1(?T \<mapsto> Regular (text_layer r)))"
    using w by (simp add: ofstream_write_def T)
  then show ?thesis
    using f1 [of q] dirs_not_below [of ?D "''text_layer.txt''"] by (auto simp: T)
qed


lemma process_page_name: "pdf_name (process_page pg name i) = name"
  by (cases pg) (simp_all add: process_page_def)

lemma made_name: "made fr r \<Longrightarrow> pdf_name r = pdf_name_v fr"
  unfolding made_def using process_page_name by metis

lemma writer_holds_name:
  assumes "shutdown_inv fr fs0 (s, tr)" "writer s = Some (Wr_write r)"
  shows "pdf_name r = pdf_name_v fr"
proof -
  from assms(1) have f: "fifo_inv (s, tr)" by (simp add: shutdown_inv_def)
  from f assms(2) have "r \<in> set (pushed tr)" by (simp add: fifo_inv_def)
  with assms(1) have "made fr r" by (rule completed_made)
  then show ?thesis by (rule made_name)
qed



section \<open>The page counter stays in range\<close>

text \<open>
  In a frame that fits, no more indices are handed out than there are pages and workers
  together; in a roomy frame the counter is the number of indices handed out, so it is
  never negative and never exceeds the page count by more than the number of workers.
\<close>

lemma claims_bound_inv:
  assumes "pipeline_inv fr fs0 (s, tr)"
  shows "claims tr \<le> max 0 (num_pages fr) + max 0 (thread_count fr)"
proof -
  from assms have b: "bound_inv fr (s, tr)" and k: "coordinator_inv fr (s, tr)"
    by (simp_all add: pipeline_inv_def shutdown_inv_def)
  from b have "claims tr \<le> max 0 (num_pages fr) + int (sum_list (map (past fr) (threads s)))"
    by (simp add: bound_inv_def)
  also have "int (sum_list (map (past fr) (threads s))) \<le> int (length (threads s))"
    using sum_list_past_le [of fr "threads s"] by simp
  also have "int (length (threads s)) \<le> max 0 (thread_count fr)"
    using k by (rule threads_bounded)
  finally show ?thesis by simp
qed

lemma current_page_bound_inv:
  assumes "pipeline_inv fr fs0 (s, tr)" "roomy fr"
  shows "current_page s = claims tr"
    and "0 \<le> current_page s \<and> current_page s \<le> max 0 (num_pages fr) + max 0 (thread_count fr)"
proof -
  from assms(1) have n: "claims tr \<le> max 0 (num_pages fr) + max 0 (thread_count fr)"
    by (rule claims_bound_inv)
  with assms(2) claims_nonneg [of tr] have "int32 (claims tr) = claims tr"
    by (intro int32_id) (simp_all add: roomy_def)
  moreover from assms(1) have "count_inv (s, tr)" by (simp add: pipeline_inv_def)
  ultimately show c: "current_page s = claims tr" by (simp add: count_inv_def)
  with n claims_nonneg [of tr]
  show "0 \<le> current_page s \<and> current_page s \<le> max 0 (num_pages fr) + max 0 (thread_count fr)"
    by simp
qed

lemma current_page_bound:
  assumes "roomy fr"
  shows "0 \<le> current_page (fst (exec fr sched (init fs, []))) \<and>
   current_page (fst (exec fr sched (init fs, [])))
     \<le> max 0 (num_pages fr) + max 0 (thread_count fr) \<and>
   0 \<le> current_page (fst (run fr sched' fs)) \<and>
   current_page (fst (run fr sched' fs)) \<le> max 0 (num_pages fr) + max 0 (thread_count fr)"
proof -
  have "pipeline_inv fr fs (fst (exec fr sched (init fs, [])), snd (exec fr sched (init fs, [])))"
    using pipeline_inv_reachable [OF roomy_fits [OF assms], of fs sched] by simp
  moreover have "pipeline_inv fr fs (fst (run fr sched' fs), snd (run fr sched' fs))"
    using pipeline_inv_run [OF roomy_fits [OF assms], of fs sched'] by simp
  ultimately show ?thesis
    using current_page_bound_inv(2) assms by blast
qed

text \<open>
  Beyond that range the counter wraps around: a \<^verbatim>\<open>fetch_add\<close> that returns \<open>2^31 - 1\<close>
  leaves the counter at \<open>- 2^31\<close>, and the indices handed out after it start again below
  the page count.
\<close>

lemma fetch_add_wraps:
  assumes "w < length (threads s)" "threads s ! w = W_fetch_add" "current_page s = 2 ^ 31 - 1"
  shows "worker fr w s =
           Some (Fetch_add w (2 ^ 31 - 1),
                 s\<lparr>current_page := - (2 ^ 31), threads := (threads s)[w := W_check (2 ^ 31 - 1)]\<rparr>)"
  using assms by (simp add: worker_def int32_def)

text \<open>
  In a frame that fits, at every moment of every run, not only at its end, the indices
  handed out so far are \<open>0, 1, 2, \<dots>\<close> in this order, and no page has been pushed
  twice.
\<close>

lemma distinct_submset:
  assumes "mset xs \<subseteq># mset ys" and "distinct ys"
  shows "distinct xs"
proof -
  have "count (mset xs) a = (if a \<in> set xs then 1 else 0)" for a
  proof -
    have 1: "count (mset xs) a \<le> count (mset ys) a"
      using assms(1) by (rule mset_subset_eq_count)
    have 2: "count (mset ys) a \<le> 1"
      using assms(2) by (simp add: distinct_count_atmost_1)
    show ?thesis
    proof (cases "a \<in> set xs")
      case True
      then have 3: "0 < count (mset xs) a" by simp
      from 1 2 3 have "count (mset xs) a = 1" by arith
      with True show ?thesis by simp
    next
      case False
      then show ?thesis by simp
    qed
  qed
  then show ?thesis by (simp add: distinct_count_atmost_1)
qed

lemma claims_in_order_inv:
  assumes "pipeline_inv fr fs0 (s, tr)"
  shows "map snd (claimed tr) = [0..claims tr - 1]"
    and "distinct (map page_id (pushed tr))"
proof -
  from assms have c: "claims_inv (s, tr)" and p: "pages_inv fr (s, tr)"
    by (simp_all add: pipeline_inv_def shutdown_inv_def)
  from c show m: "map snd (claimed tr) = [0..claims tr - 1]"
    by (simp add: claims_inv_def)
  from p have "mset (map page_id (pushed tr)) \<subseteq># mset (filter (opens fr) [0..claims tr - 1])"
    unfolding pages_inv_def fst_conv snd_conv m by (metis mset_subset_eq_add_left)
  moreover have "distinct (filter (opens fr) [0..claims tr - 1])" by simp
  ultimately show "distinct (map page_id (pushed tr))"
    by (rule distinct_submset)
qed

lemma claims_in_order:
  assumes "fits fr"
  shows "map snd (claimed (snd (exec fr sched (init fs, [])))) =
     [0..claims (snd (exec fr sched (init fs, []))) - 1] \<and>
   distinct (map page_id (pushed (snd (exec fr sched (init fs, [])))))"
proof -
  have "pipeline_inv fr fs (fst (exec fr sched (init fs, [])), snd (exec fr sched (init fs, [])))"
    using pipeline_inv_reachable [OF assms, of fs sched] by simp
  then show ?thesis
    by (intro conjI claims_in_order_inv)
qed

section \<open>A run in which the counter wraps around\<close>

text \<open>
  What a run has recorded stays recorded.
\<close>

lemma exec_append: "exec fr (a @ b) x = exec fr b (exec fr a x)"
  by (simp add: exec_def)

lemma step_ev_keeps: "e \<in> set (snd x) \<Longrightarrow> e \<in> set (snd (step_ev fr x t))"
  by (auto simp: step_ev_def split: option.splits)

lemma exec_keeps: "e \<in> set (snd x) \<Longrightarrow> e \<in> set (snd (exec fr sched x))"
  unfolding exec_def
  by (induction sched arbitrary: x) (simp_all add: step_ev_keeps)

lemma complete_keeps: "e \<in> set (snd x) \<Longrightarrow> e \<in> set (snd (complete fr x))"
proof (induction fr x rule: complete.induct)
  case (1 fr x)
  show ?case
  proof (cases "pick fr (fst x)")
    case None
    with "1.prems" show ?thesis by (subst complete.simps) simp
  next
    case (Some t)
    with "1.IH" [OF Some] "1.prems" show ?thesis
      by (subst complete.simps) (simp add: step_ev_keeps)
  qed
qed

lemma clear_inv_step:
  assumes "step fr s t = Some (e, s')" "clear_inv fr (s, tr)" "shutdown_inv fr fs0 (s, tr)"
    and "pdf_name_v fr \<noteq> []" "CHR ''/'' \<notin> set (pdf_name_v fr)"
  shows "clear_inv fr (s', tr @ [e])"
  using assms(1)
proof (cases rule: step_cases)
  case main
  from main(3) assms(2) show ?thesis
    by (cases rule: coordinate_cases) (auto simp: clear_inv_def)
next
  case (worker w)
  from worker(3) assms(2) show ?thesis
    by (cases rule: worker_cases) (auto simp: clear_inv_def)
next
  case writer
  have held: "page_dir (output_dir fr) r = output_dir fr @ [pdf_name_v fr, to_string (page_id r)]"
    if "writer s = Some (Wr_write r)" for r
  proof -
    from assms(3) that have "pdf_name r = pdf_name_v fr" by (rule writer_holds_name)
    with page_dir_eq [of r "output_dir fr"] assms(4,5) show ?thesis by simp
  qed
  from writer(3) show ?thesis
  proof (cases rule: writer_thread_cases)
    case (pop_true r rest)
    with assms(2) show ?thesis by (simp add: clear_inv_def)
  next
    case pop_false
    with assms(2) show ?thesis by (simp add: clear_inv_def)
  next
    case (write_ok r fs)
    note D = held [OF write_ok(1)]
    then have ne: "page_dir (output_dir fr) r \<noteq> []" by simp
    note f = write_result_Some [OF ne write_ok(2)]
    have "length (output_dir fr) + 2 < length q" if "fs q = Some (Regular c)" for q c
    proof (cases "q = text_file (output_dir fr) r")
      case True
      then show ?thesis by (simp add: text_file_eq D)
    next
      case False
      with f [of q] that have "files s q = Some (Regular c)"
        by (simp split: if_splits)
      with assms(2) show ?thesis by (simp add: clear_inv_def)
    qed
    with write_ok assms(2) show ?thesis by (simp add: clear_inv_def)
  next
    case (write_throw r)
    note D = held [OF write_throw(1)]
    then have ne: "page_dir (output_dir fr) r \<noteq> []" by simp
    from write_throw(2) obtain q c where q: "q \<in> set (dirs [] (page_dir (output_dir fr) r))"
      "files s q = Some (Regular c)"
      by (auto simp: write_result_None_iff [OF ne])
    from q(1) have "length q \<le> length (output_dir fr) + 2"
      using dirs_longer [of q "[]" "page_dir (output_dir fr) r"] by (simp add: D)
    with q(2) assms(2) show ?thesis by (auto simp: clear_inv_def)
  qed
qed

lemma clear_inv_step_ev:
  assumes "clear_inv fr x" "shutdown_inv fr fs0 x"
    and "pdf_name_v fr \<noteq> []" "CHR ''/'' \<notin> set (pdf_name_v fr)"
  shows "clear_inv fr (step_ev fr x t)"
proof (cases "step fr (fst x) t")
  case None
  with assms(1) show ?thesis by (simp add: step_ev_def)
next
  case (Some a)
  obtain e s' where a: "a = (e, s')" by (cases a)
  obtain s tr where x: "x = (s, tr)" by (cases x)
  from Some a x have st: "step fr s t = Some (e, s')" by simp
  from assms x have "clear_inv fr (s', tr @ [e])"
    by (intro clear_inv_step [OF st, of tr fs0]) simp_all
  with Some a x show ?thesis by (simp add: step_ev_def)
qed

lemma clear_inv_exec:
  assumes "pdf_name_v fr \<noteq> []" "CHR ''/'' \<notin> set (pdf_name_v fr)"
  shows "clear_inv fr x \<Longrightarrow> shutdown_inv fr fs0 x \<Longrightarrow> clear_inv fr (exec fr sched x)"
  unfolding exec_def
proof (induction sched arbitrary: x)
  case Nil
  then show ?case by simp
next
  case (Cons t ts)
  from Cons.prems assms have "clear_inv fr (step_ev fr x t)" by (intro clear_inv_step_ev)
  moreover from Cons.prems(2) have "shutdown_inv fr fs0 (step_ev fr x t)"
    by (rule shutdown_inv_step_ev)
  ultimately show ?case using Cons.IH by simp
qed

lemma clear_inv_complete:
  assumes "pdf_name_v fr \<noteq> []" "CHR ''/'' \<notin> set (pdf_name_v fr)"
  shows "clear_inv fr x \<Longrightarrow> shutdown_inv fr fs0 x \<Longrightarrow> clear_inv fr (complete fr x)"
  using assms
proof (induction fr x rule: complete.induct)
  case (1 fr x)
  show ?case
  proof (cases "pick fr (fst x)")
    case None
    with "1.prems" show ?thesis by (subst complete.simps) simp
  next
    case (Some t)
    from "1.prems" have c: "clear_inv fr (step_ev fr x t)" by (intro clear_inv_step_ev)
    from "1.prems"(2) have s: "shutdown_inv fr fs0 (step_ev fr x t)"
      by (rule shutdown_inv_step_ev)
    from "1.IH" [OF Some c s "1.prems"(3,4)] Some show ?thesis
      by (subst complete.simps) simp
  qed
qed

text \<open>
  Where no regular file lies in the output directory's way, the writer never throws.
\<close>

lemma no_crash:
  assumes "pdf_name_v fr \<noteq> []" "CHR ''/'' \<notin> set (pdf_name_v fr)"
    and "\<forall>q c. fs q = Some (Regular c) \<longrightarrow> length (output_dir fr) + 2 < length q"
  shows "\<not> terminated (fst (exec fr sched (init fs, [])))"
    and "\<not> terminated (fst (run fr sched fs))"
proof -
  from assms(3) have i: "clear_inv fr (init fs, [])"
    by (simp add: clear_inv_def init_def)
  have e: "clear_inv fr (exec fr sched (init fs, []))"
    using assms(1,2) i shutdown_inv_init by (rule clear_inv_exec)
  then show "\<not> terminated (fst (exec fr sched (init fs, [])))"
    by (simp add: clear_inv_def)
  have "clear_inv fr (run fr sched fs)"
    unfolding run_def
    using assms(1,2) e shutdown_inv_reachable by (rule clear_inv_complete)
  then show "\<not> terminated (fst (run fr sched fs))"
    by (simp add: clear_inv_def)
qed

text \<open>
  The run of \<open>big_frame\<close> under \<open>big_schedule\<close>, round by round: a round of worker 0
  claims, processes and pushes one page; at \<open>2^31 - 1\<close> worker 0 claims the page count
  itself, which wraps the counter around to \<open>- 2^31\<close>, and ends its loop; a round of
  worker 1 claims a negative index, finds no page and goes on; at the end of \<open>2^31\<close>
  such rounds the counter is back at 0.
\<close>

lemma num_pages_big: "num_pages big_frame = 2 ^ 31 - 1"
  by (simp add: num_pages_def big_frame_def big_document_def int32_def)

lemma big_start:
  "\<exists>s tr. exec big_frame [Main, Main, Main, Worker 0, Worker 0, Worker 0] (init fs, []) = (s, tr)
     \<and> threads s = [W_fetch_add, W_fetch_add] \<and> current_page s = 1 \<and> \<not> terminated s
     \<and> Fetch_add 0 0 \<in> set tr"
proof -
  have t: "thread_count big_frame = 2"
    and c: "create_page (doc big_frame) 0 = Some (Page [])"
    by (simp_all add: big_frame_def big_document_def every_page_def)
  show ?thesis
    by (simp add: exec_def step_ev_def step_def coordinate_def worker_def init_def num_pages_big
        int32_def t c)
qed

lemma worker0_round:
  assumes "threads s = [W_fetch_add, pc]" "\<not> terminated s" "0 \<le> current_page s"
    "current_page s < 2 ^ 31 - 1"
  shows "\<exists>s' tr'. exec big_frame [Worker 0, Worker 0, Worker 0] (s, tr) = (s', tr')
     \<and> threads s' = [W_fetch_add, pc] \<and> current_page s' = current_page s + 1 \<and> \<not> terminated s'"
proof -
  from assms(3,4) have i: "int32 (current_page s + 1) = current_page s + 1"
    by (intro int32_id) simp_all
  from assms(3) have c: "create_page (doc big_frame) (current_page s) = Some (Page [])"
    by (simp add: big_frame_def big_document_def every_page_def)
  from assms show ?thesis
    by (simp add: exec_def step_ev_def step_def worker_def num_pages_big i c)
qed

lemma worker0_rounds:
  "threads s = [W_fetch_add, pc] \<Longrightarrow> \<not> terminated s \<Longrightarrow> 0 \<le> current_page s \<Longrightarrow>
   current_page s + int k \<le> 2 ^ 31 - 1 \<Longrightarrow>
   \<exists>s' tr'. exec big_frame (concat (replicate k [Worker 0, Worker 0, Worker 0])) (s, tr) = (s', tr')
     \<and> threads s' = [W_fetch_add, pc] \<and> current_page s' = current_page s + int k \<and> \<not> terminated s'"
proof (induction k arbitrary: s tr)
  case 0
  then show ?case by (simp add: exec_def)
next
  case (Suc k)
  from Suc.prems obtain s1 tr1 where 1:
    "exec big_frame [Worker 0, Worker 0, Worker 0] (s, tr) = (s1, tr1)"
    "threads s1 = [W_fetch_add, pc]" "current_page s1 = current_page s + 1" "\<not> terminated s1"
    using worker0_round [of s pc tr] by auto
  from Suc.prems 1 obtain s2 tr2 where 2:
    "exec big_frame (concat (replicate k [Worker 0, Worker 0, Worker 0])) (s1, tr1) = (s2, tr2)"
    "threads s2 = [W_fetch_add, pc]" "current_page s2 = current_page s1 + int k" "\<not> terminated s2"
    using Suc.IH [of s1 tr1] by auto
  have "exec big_frame (concat (replicate (Suc k) [Worker 0, Worker 0, Worker 0])) (s, tr)
      = exec big_frame (concat (replicate k [Worker 0, Worker 0, Worker 0]))
          (exec big_frame [Worker 0, Worker 0, Worker 0] (s, tr))"
    by (simp only: replicate_Suc concat.simps exec_append)
  with 1 2 show ?case by simp
qed

lemma worker0_exit:
  assumes "threads s = [W_fetch_add, pc]" "\<not> terminated s" "current_page s = 2 ^ 31 - 1"
  shows "\<exists>s' tr'. exec big_frame [Worker 0, Worker 0] (s, tr) = (s', tr')
     \<and> threads s' = [W_exited, pc] \<and> current_page s' = - (2 ^ 31) \<and> \<not> terminated s'"
  using assms
  by (simp add: exec_def step_ev_def step_def worker_def num_pages_big int32_def)

lemma worker1_round:
  assumes "threads s = [pc, W_fetch_add]" "\<not> terminated s" "- (2 ^ 31) \<le> current_page s"
    "current_page s < 0"
  shows "\<exists>s' tr'. exec big_frame [Worker 1, Worker 1] (s, tr) = (s', tr')
     \<and> threads s' = [pc, W_fetch_add] \<and> current_page s' = current_page s + 1 \<and> \<not> terminated s'"
proof -
  from assms(3,4) have i: "int32 (current_page s + 1) = current_page s + 1"
    by (intro int32_id) simp_all
  from assms(4) have c: "create_page (doc big_frame) (current_page s) = None"
    by (simp add: big_frame_def big_document_def every_page_def)
  from assms show ?thesis
    by (simp add: exec_def step_ev_def step_def worker_def num_pages_big i c)
qed

lemma worker1_rounds:
  "threads s = [pc, W_fetch_add] \<Longrightarrow> \<not> terminated s \<Longrightarrow> - (2 ^ 31) \<le> current_page s \<Longrightarrow>
   current_page s + int k \<le> 0 \<Longrightarrow>
   \<exists>s' tr'. exec big_frame (concat (replicate k [Worker 1, Worker 1])) (s, tr) = (s', tr')
     \<and> threads s' = [pc, W_fetch_add] \<and> current_page s' = current_page s + int k \<and> \<not> terminated s'"
proof (induction k arbitrary: s tr)
  case 0
  then show ?case by (simp add: exec_def)
next
  case (Suc k)
  from Suc.prems obtain s1 tr1 where 1:
    "exec big_frame [Worker 1, Worker 1] (s, tr) = (s1, tr1)"
    "threads s1 = [pc, W_fetch_add]" "current_page s1 = current_page s + 1" "\<not> terminated s1"
    using worker1_round [of s pc tr] by auto
  from Suc.prems 1 obtain s2 tr2 where 2:
    "exec big_frame (concat (replicate k [Worker 1, Worker 1])) (s1, tr1) = (s2, tr2)"
    "threads s2 = [pc, W_fetch_add]" "current_page s2 = current_page s1 + int k" "\<not> terminated s2"
    using Suc.IH [of s1 tr1] by auto
  have "exec big_frame (concat (replicate (Suc k) [Worker 1, Worker 1])) (s, tr)
      = exec big_frame (concat (replicate k [Worker 1, Worker 1]))
          (exec big_frame [Worker 1, Worker 1] (s, tr))"
    by (simp only: replicate_Suc concat.simps exec_append)
  with 1 2 show ?case by simp
qed

lemma worker1_claims:
  assumes "threads s = [pc, W_fetch_add]" "\<not> terminated s"
  shows "Fetch_add 1 (current_page s) \<in> set (snd (exec big_frame [Worker 1] (s, tr)))"
  using assms by (simp add: exec_def step_ev_def step_def worker_def)

lemma big_run:
  "Fetch_add 0 0 \<in> set (snd (exec big_frame big_schedule (init fs, [])))
   \<and> Fetch_add 1 0 \<in> set (snd (exec big_frame big_schedule (init fs, [])))"
proof -
  let ?A = "[Main, Main, Main, Worker 0, Worker 0, Worker 0]"
  let ?B = "concat (replicate (2 ^ 31 - 2) [Worker 0, Worker 0, Worker 0])"
  let ?C = "[Worker 0, Worker 0]"
  let ?D = "concat (replicate (2 ^ 31) [Worker 1, Worker 1])"
  let ?E = "[Worker 1]"
  obtain s1 tr1 where 1: "exec big_frame ?A (init fs, []) = (s1, tr1)"
    "threads s1 = [W_fetch_add, W_fetch_add]" "current_page s1 = 1" "\<not> terminated s1"
    "Fetch_add 0 0 \<in> set tr1"
    using big_start by blast
  have k: "int (2 ^ 31 - 2) = 2 ^ 31 - 2" by simp
  from 1 have "current_page s1 + int (2 ^ 31 - 2) \<le> 2 ^ 31 - 1" by (simp only: k)
  with 1 obtain s2 tr2 where 2: "exec big_frame ?B (s1, tr1) = (s2, tr2)"
    "threads s2 = [W_fetch_add, W_fetch_add]" "current_page s2 = current_page s1 + int (2 ^ 31 - 2)"
    "\<not> terminated s2"
    using worker0_rounds [of s1 W_fetch_add "2 ^ 31 - 2" tr1] by auto
  from 2(3) 1(3) have c2: "current_page s2 = 2 ^ 31 - 1" by (simp only: k)
  with 2 obtain s3 tr3 where 3: "exec big_frame ?C (s2, tr2) = (s3, tr3)"
    "threads s3 = [W_exited, W_fetch_add]" "current_page s3 = - (2 ^ 31)" "\<not> terminated s3"
    using worker0_exit [of s2 W_fetch_add tr2] by auto
  have k': "int (2 ^ 31) = 2 ^ 31" by simp
  from 3 have "current_page s3 + int (2 ^ 31) \<le> 0" by (simp only: k')
  with 3 obtain s4 tr4 where 4: "exec big_frame ?D (s3, tr3) = (s4, tr4)"
    "threads s4 = [W_exited, W_fetch_add]" "current_page s4 = current_page s3 + int (2 ^ 31)"
    "\<not> terminated s4"
    using worker1_rounds [of s3 W_exited "2 ^ 31" tr3] by auto
  from 4(3) 3(3) have c4: "current_page s4 = 0" by (simp only: k')
  from 4 have "Fetch_add 1 (current_page s4) \<in> set (snd (exec big_frame ?E (s4, tr4)))"
    by (intro worker1_claims)
  with c4 have 5: "Fetch_add 1 0 \<in> set (snd (exec big_frame ?E (s4, tr4)))" by simp
  have e: "exec big_frame big_schedule (init fs, [])
      = exec big_frame ?E (exec big_frame ?D (exec big_frame ?C (exec big_frame ?B
          (exec big_frame ?A (init fs, [])))))"
    unfolding big_schedule_def by (simp only: exec_append)
  have t: "set tr1 \<subseteq> set (snd (exec big_frame big_schedule (init fs, [])))"
  proof
    fix x assume "x \<in> set tr1"
    then have "x \<in> set (snd (s1, tr1))" by simp
    then have "x \<in> set (snd (exec big_frame ?E (exec big_frame ?D (exec big_frame ?C
        (exec big_frame ?B (s1, tr1))))))"
      by (intro exec_keeps)
    then show "x \<in> set (snd (exec big_frame big_schedule (init fs, [])))"
      by (simp only: e 1(1))
  qed
  from 5 have "Fetch_add 1 0 \<in> set (snd (exec big_frame big_schedule (init fs, [])))"
    by (simp only: e 1(1) 2(1) 3(1) 4(1))
  with t 1(5) show ?thesis by blast
qed

lemma claimed_mem: "Fetch_add w i \<in> set tr \<Longrightarrow> (w, i) \<in> set (claimed tr)"
  by (force simp: claimed_def)

text \<open>
  C1 does not hold as stated. All the \<open>2^31 - 1\<close> pages of \<open>big_document\<close> open and
  there are two workers, \<open>2^31 + 1\<close> together, one more than fits. In the run under
  \<open>big_schedule\<close>, from which no exception escapes, page 0 is claimed twice: by worker 0
  at the start, and by worker 1 after the counter has wrapped around.
\<close>

theorem fetch_add_claims_each_page_once_counterexample:
  "thread_count big_frame = 2 \<and>
   num_pages big_frame = 2 ^ 31 - 1 \<and>
   create_page (doc big_frame) = every_page \<and>
   \<not> terminated (fst (run big_frame big_schedule (disk empty_world))) \<and>
   (0, 0) \<in> set (claimed (snd (run big_frame big_schedule (disk empty_world)))) \<and>
   (1, 0) \<in> set (claimed (snd (run big_frame big_schedule (disk empty_world))))"
proof -
  have "\<not> terminated (fst (run big_frame big_schedule (disk empty_world)))"
    by (rule no_crash) (simp_all add: big_frame_def empty_world_def)
  moreover have "Fetch_add 0 0 \<in> set (snd (run big_frame big_schedule (disk empty_world)))"
    "Fetch_add 1 0 \<in> set (snd (run big_frame big_schedule (disk empty_world)))"
    unfolding run_def using big_run [of "disk empty_world"] by (blast intro: complete_keeps)+
  moreover have "thread_count big_frame = 2" "create_page (doc big_frame) = every_page"
    by (simp_all add: big_frame_def big_document_def)
  ultimately show ?thesis
    using num_pages_big by (simp add: claimed_mem)
qed

section \<open>The files of a run that has ended\<close>

lemma digit_char_inj:
  assumes "a < 10" "b < 10" "char_of (48 + a :: nat) = char_of (48 + b :: nat)"
  shows "a = b"
proof -
  from assms(3) have "(of_char (char_of (48 + a :: nat)) :: nat) = of_char (char_of (48 + b :: nat))"
    by simp
  with assms(1,2) show ?thesis by (simp add: take_bit_eq_mod)
qed

lemma digits_length: "n < 10 \<longleftrightarrow> length (digits n) = 1"
proof (cases "n < 10")
  case True
  then show ?thesis by (simp add: digits.simps [of n])
next
  case False
  moreover have "digits (n div 10) \<noteq> []" using digits_ok by simp
  ultimately show ?thesis by (simp add: digits.simps [of n])
qed

lemma digits_inj: "digits n = digits m \<Longrightarrow> n = m"
proof (induction n arbitrary: m rule: digits.induct)
  case (1 n)
  show ?case
  proof (cases "n < 10")
    case True
    with "1.prems" have m: "m < 10" using digits_length [of n] digits_length [of m] by simp
    with True "1.prems" show ?thesis
      using digit_char_inj [of n m] by (simp add: digits.simps [of n] digits.simps [of m])
  next
    case False
    with "1.prems" have m: "\<not> m < 10" using digits_length [of n] digits_length [of m] by simp
    with False "1.prems" have e: "digits (n div 10) = digits (m div 10)"
      "char_of (48 + n mod 10) = char_of (48 + m mod 10)"
      by (simp_all add: digits.simps [of n] digits.simps [of m])
    from "1.IH" [OF False e(1)] have "n div 10 = m div 10" .
    moreover from e(2) have "n mod 10 = m mod 10"
      using digit_char_inj [of "n mod 10" "m mod 10"] by simp
    ultimately show ?thesis by (metis div_mult_mod_eq)
  qed
qed

lemma digit_not_minus: "k < 10 \<Longrightarrow> char_of (48 + k :: nat) \<noteq> CHR ''-''"
proof
  assume k: "k < 10" and e: "char_of (48 + k :: nat) = CHR ''-''"
  from e have "(of_char (char_of (48 + k :: nat)) :: nat) = of_char CHR ''-''" by simp
  with k show False by (simp add: take_bit_eq_mod)
qed

lemma digits_no_minus: "CHR ''-'' \<notin> set (digits n)"
proof (induction n rule: digits.induct)
  case (1 n)
  show ?case
  proof (cases "n < 10")
    case True
    then show ?thesis using digit_not_minus [of n] by (simp add: digits.simps [of n])
  next
    case False
    with 1 digit_not_minus [of "n mod 10"] show ?thesis
      by (simp add: digits.simps [of n])
  qed
qed

lemma to_string_inj:
  assumes "to_string i = to_string j"
  shows "i = j"
proof -
  have mixed: False if "a < 0" "0 \<le> b" "to_string a = to_string b" for a b
  proof -
    from that have "CHR ''-'' # digits (nat (- a)) = digits (nat b)"
      by (simp add: to_string_def)
    then have "CHR ''-'' \<in> set (digits (nat b))" by (metis list.set_intros(1))
    with digits_no_minus show False by simp
  qed
  show ?thesis
  proof (cases "i < 0")
    case True
    show ?thesis
    proof (cases "j < 0")
      case j: True
      with True assms have "digits (nat (- i)) = digits (nat (- j))"
        by (simp add: to_string_def)
      then have "nat (- i) = nat (- j)" by (rule digits_inj)
      with True j show ?thesis by simp
    next
      case False
      with True assms mixed [of i j] show ?thesis by simp
    qed
  next
    case False
    show ?thesis
    proof (cases "j < 0")
      case True
      with False assms mixed [of j i] show ?thesis by simp
    next
      case j: False
      with False assms have "digits (nat i) = digits (nat j)"
        by (simp add: to_string_def)
      then have "nat i = nat j" by (rule digits_inj)
      with False j show ?thesis by simp
    qed
  qed
qed

text \<open>Results of one document: the same usable name, and each page its own directory.\<close>

lemma text_file_not_dir:
  assumes "pdf_name r = name" "pdf_name r' = name" "name \<noteq> []" "CHR ''/'' \<notin> set name"
  shows "text_file out r \<notin> set (dirs [] (page_dir out r'))"
    and "page_dir out r \<noteq> text_file out r'"
proof -
  have D: "page_dir out r = out @ [name, to_string (page_id r)]"
    "page_dir out r' = out @ [name, to_string (page_id r')]"
    using assms page_dir_eq [of r out] page_dir_eq [of r' out] by simp_all
  show "text_file out r \<notin> set (dirs [] (page_dir out r'))"
    using dirs_longer [of "text_file out r" "[]" "page_dir out r'"]
    by (auto simp: text_file_eq D)
  show "page_dir out r \<noteq> text_file out r'"
    by (simp add: text_file_eq D)
qed

lemma other_page_untouched:
  assumes "pdf_name r = name" "pdf_name r' = name" "name \<noteq> []" "CHR ''/'' \<notin> set name"
    and "page_id r \<noteq> page_id r'"
  shows "text_file out r \<noteq> text_file out r'"
    and "page_dir out r \<notin> set (dirs [] (page_dir out r'))"
proof -
  have D: "page_dir out r = out @ [name, to_string (page_id r)]"
    "page_dir out r' = out @ [name, to_string (page_id r')]"
    using assms(1-4) page_dir_eq [of r out] page_dir_eq [of r' out] by simp_all
  have ne: "to_string (page_id r) \<noteq> to_string (page_id r')"
    using to_string_inj [of "page_id r" "page_id r'"] assms(5) by blast
  show "text_file out r \<noteq> text_file out r'"
    using ne by (simp add: text_file_eq D)
  show "page_dir out r \<notin> set (dirs [] (page_dir out r'))"
  proof
    assume "page_dir out r \<in> set (dirs [] (page_dir out r'))"
    then obtain k where k: "0 < k" "k \<le> length (page_dir out r')"
      "page_dir out r = take k (page_dir out r')"
      using dirs_take [of "page_dir out r" "[]" "page_dir out r'"] by auto
    moreover have "length (page_dir out r) = length (page_dir out r')" by (simp add: D)
    ultimately have "length (page_dir out r') \<le> k" by (metis length_take min.cobounded2)
    with k(3) have "page_dir out r = page_dir out r'" by simp
    with ne show False by (simp add: D)
  qed
qed

lemma write_all_keeps:
  assumes "write_all out rs fs = Some fs'"
    and "\<forall>r' \<in> set rs. page_dir out r' \<noteq> [] \<and> q \<notin> set (dirs [] (page_dir out r')) \<and>
           q \<noteq> text_file out r'"
  shows "fs' q = fs q"
  using assms
proof (induction rs arbitrary: fs)
  case Nil
  then show ?case by simp
next
  case (Cons r rs)
  from Cons.prems(1) obtain fs1 where 1: "write_result out r fs = Some fs1"
    and 2: "write_all out rs fs1 = Some fs'"
    by (auto split: option.splits)
  from Cons.prems(2) have "fs1 q = fs q"
    using write_result_Some [OF _ 1, of q] by simp
  moreover from Cons.IH [OF 2] Cons.prems(2) have "fs' q = fs1 q" by simp
  ultimately show ?case by simp
qed

text \<open>
  A list of results in which results with the same page index are the same result, written
  in turn: each has its directory and, unless a directory was in the file's place, its text
  in its file, however often it occurs in the list.
\<close>

lemma write_all_files:
  assumes "write_all out rs fs = Some fs'"
    and "\<forall>r \<in> set rs. pdf_name r = name"
    and "\<forall>r \<in> set rs. \<forall>r' \<in> set rs. page_id r = page_id r' \<longrightarrow> r = r'"
    and "name \<noteq> []" "CHR ''/'' \<notin> set name"
    and "r \<in> set rs"
  shows "fs' (page_dir out r) = Some Directory \<and>
         (fs (text_file out r) \<noteq> Some Directory \<longrightarrow>
            fs' (text_file out r) = Some (Regular (text_layer r)))"
  using assms(1,2,3,6)
proof (induction rs arbitrary: fs)
  case Nil
  then show ?case by simp
next
  case (Cons a rs)
  from Cons.prems(1) obtain fs1 where 1: "write_result out a fs = Some fs1"
    and 2: "write_all out rs fs1 = Some fs'"
    by (auto split: option.splits)
  have nm: "pdf_name x = name" if "x \<in> set (a # rs)" for x
    using that Cons.prems(2) by auto
  have ne: "page_dir out x \<noteq> []" if "x \<in> set (a # rs)" for x
    using page_dir_eq [of x out] nm [OF that] assms(4,5) by simp
  have na: "page_dir out a \<noteq> []" using ne [of a] by simp
  note f1 = write_result_Some [OF na 1]
  show ?case
  proof (cases "r \<in> set rs")
    case True
    have same: "\<forall>x \<in> set rs. \<forall>y \<in> set rs. page_id x = page_id y \<longrightarrow> x = y"
      using Cons.prems(3) by simp
    have names: "\<forall>x \<in> set rs. pdf_name x = name" using Cons.prems(2) by simp
    from Cons.IH [OF 2 names same True]
    have ih: "fs' (page_dir out r) = Some Directory"
      "fs1 (text_file out r) \<noteq> Some Directory \<Longrightarrow>
         fs' (text_file out r) = Some (Regular (text_layer r))"
      by simp_all
    have "text_file out r \<notin> set (dirs [] (page_dir out a))"
      using text_file_not_dir(1) [of r name a out] nm [of r] nm [of a] True assms(4,5) by simp
    with f1 [of "text_file out r"]
    have "fs (text_file out r) \<noteq> Some Directory \<Longrightarrow> fs1 (text_file out r) \<noteq> Some Directory"
      by (simp split: if_splits)
    with ih show ?thesis by simp
  next
    case False
    with Cons.prems(4) have ra: "r = a" by simp
    have diff: "page_id r \<noteq> page_id r'" if "r' \<in> set rs" for r'
    proof
      assume "page_id r = page_id r'"
      with Cons.prems(3) ra that have "r = r'" by simp
      with that False show False by simp
    qed
    have "\<forall>r' \<in> set rs. page_dir out r' \<noteq> [] \<and>
            page_dir out r \<notin> set (dirs [] (page_dir out r')) \<and> page_dir out r \<noteq> text_file out r'"
    proof
      fix r'
      assume m: "r' \<in> set rs"
      with other_page_untouched(2) [of r name r' out] text_file_not_dir(2) [of r name r' out]
        nm [of r] nm [of r'] ne [of r'] diff [OF m] ra assms(4,5)
      show "page_dir out r' \<noteq> [] \<and>
            page_dir out r \<notin> set (dirs [] (page_dir out r')) \<and> page_dir out r \<noteq> text_file out r'"
        by simp
    qed
    from write_all_keeps [OF 2 this] have d: "fs' (page_dir out r) = fs1 (page_dir out r)" .
    have "\<forall>r' \<in> set rs. page_dir out r' \<noteq> [] \<and>
            text_file out r \<notin> set (dirs [] (page_dir out r')) \<and> text_file out r \<noteq> text_file out r'"
    proof
      fix r'
      assume m: "r' \<in> set rs"
      with other_page_untouched(1) [of r name r' out] text_file_not_dir(1) [of r name r' out]
        nm [of r] nm [of r'] ne [of r'] diff [OF m] ra assms(4,5)
      show "page_dir out r' \<noteq> [] \<and>
            text_file out r \<notin> set (dirs [] (page_dir out r')) \<and> text_file out r \<noteq> text_file out r'"
        by simp
    qed
    from write_all_keeps [OF 2 this] have t: "fs' (text_file out r) = fs1 (text_file out r)" .
    have "fs1 (page_dir out r) = Some Directory"
      using f1 [of "page_dir out r"] dirs_self [of "page_dir out r"] na ra by simp
    moreover have "fs (text_file out r) \<noteq> Some Directory \<longrightarrow>
        fs1 (text_file out r) = Some (Regular (text_layer r))"
      using f1 [of "text_file out r"] dirs_not_below [of "page_dir out r" "''text_layer.txt''"] ra
      by (simp add: text_file_eq)
    ultimately show ?thesis using d t by simp
  qed
qed

lemma completed_files:
  assumes sh: "shutdown_inv fr fs0 (s, tr)" and ret: "coordinator s = M_return"
    and one: "1 \<le> thread_count fr"
    and name: "pdf_name_v fr \<noteq> []" "CHR ''/'' \<notin> set (pdf_name_v fr)"
  shows "0 \<le> k \<and> k < num_pages fr \<and> create_page (doc fr) k = Some pg \<Longrightarrow>
           files s (output_dir fr @ [pdf_name_v fr, to_string k]) = Some Directory \<and>
           (fs0 (output_dir fr @ [pdf_name_v fr, to_string k, ''text_layer.txt'']) \<noteq> Some Directory \<longrightarrow>
              files s (output_dir fr @ [pdf_name_v fr, to_string k, ''text_layer.txt''])
                = Some (Regular (text_to_utf8 pg)))"
    and "create_page (doc fr) k = None \<Longrightarrow>
           files s (output_dir fr @ [pdf_name_v fr, to_string k])
             = fs0 (output_dir fr @ [pdf_name_v fr, to_string k]) \<and>
           files s (output_dir fr @ [pdf_name_v fr, to_string k, ''text_layer.txt''])
             = fs0 (output_dir fr @ [pdf_name_v fr, to_string k, ''text_layer.txt''])"
proof -
  let ?out = "output_dir fr"
  let ?name = "pdf_name_v fr"
  let ?mk = "\<lambda>i. process_page (create_page (doc fr) i) ?name i"
  have wa: "write_all ?out (pushed tr) fs0 = Some (files s)"
    using sh ret by (rule completed)
  have mk: "made fr r" if "r \<in> set (pushed tr)" for r
    using sh that by (rule completed_made)
  have nm: "\<forall>r \<in> set (pushed tr). pdf_name r = ?name"
    using mk made_name by blast
  have same: "\<forall>r \<in> set (pushed tr). \<forall>r' \<in> set (pushed tr). page_id r = page_id r' \<longrightarrow> r = r'"
  proof (intro ballI impI)
    fix r r'
    assume "r \<in> set (pushed tr)" "r' \<in> set (pushed tr)" "page_id r = page_id r'"
    with mk [of r] mk [of r'] show "r = r'" by (simp add: made_def)
  qed
  {
    assume k: "0 \<le> k \<and> k < num_pages fr \<and> create_page (doc fr) k = Some pg"
    then have "opens fr k" by (simp add: opens_def)
    with k have r: "?mk k \<in> set (pushed tr)"
      using completed_pushed [OF sh ret one, of k] by simp
    from k have tx: "text_layer (?mk k) = text_to_utf8 pg" by (simp add: process_page_def)
    have pid: "page_id (?mk k) = k" by (cases "create_page (doc fr) k") (simp_all add: process_page_def)
    from r nm have rn: "pdf_name (?mk k) = ?name" by simp
    have D: "page_dir ?out (?mk k) = ?out @ [?name, to_string k]"
      using page_dir_eq [of "?mk k" ?out] rn name pid by simp
    have T: "text_file ?out (?mk k) = ?out @ [?name, to_string k, ''text_layer.txt'']"
      by (simp add: text_file_eq D)
    from write_all_files [OF wa nm same name r]
    show "files s (?out @ [?name, to_string k]) = Some Directory \<and>
           (fs0 (?out @ [?name, to_string k, ''text_layer.txt'']) \<noteq> Some Directory \<longrightarrow>
              files s (?out @ [?name, to_string k, ''text_layer.txt''])
                = Some (Regular (text_to_utf8 pg)))"
      by (simp add: D T tx)
  next
    assume k: "create_page (doc fr) k = None"
    define x where "x = process_page None ?name k"
    have x: "pdf_name x = ?name" "page_id x = k" by (simp_all add: x_def process_page_def)
    have D: "page_dir ?out x = ?out @ [?name, to_string k]"
      using page_dir_eq [of x ?out] x name by simp
    have T: "text_file ?out x = ?out @ [?name, to_string k, ''text_layer.txt'']"
      by (simp add: text_file_eq D)
    have far: "page_dir ?out r' \<noteq> [] \<and>
        page_dir ?out x \<notin> set (dirs [] (page_dir ?out r')) \<and> page_dir ?out x \<noteq> text_file ?out r' \<and>
        text_file ?out x \<notin> set (dirs [] (page_dir ?out r')) \<and> text_file ?out x \<noteq> text_file ?out r'"
      if "r' \<in> set (pushed tr)" for r'
    proof -
      from that nm have n': "pdf_name r' = ?name" by simp
      from mk [OF that] have "create_page (doc fr) (page_id r') \<noteq> None"
        by (simp add: made_def opens_def)
      with k have "page_id x \<noteq> page_id r'" by (auto simp: x)
      with other_page_untouched [of x ?name r' ?out] text_file_not_dir [of x ?name r' ?out]
        x n' name page_dir_eq [of r' ?out]
      show ?thesis by simp
    qed
    have "files s (page_dir ?out x) = fs0 (page_dir ?out x)"
      using far by (intro write_all_keeps [OF wa]) simp
    moreover have "files s (text_file ?out x) = fs0 (text_file ?out x)"
      using far by (intro write_all_keeps [OF wa]) simp
    ultimately show "files s (?out @ [?name, to_string k]) = fs0 (?out @ [?name, to_string k]) \<and>
           files s (?out @ [?name, to_string k, ''text_layer.txt''])
             = fs0 (?out @ [?name, to_string k, ''text_layer.txt''])"
      by (simp add: D T)
  }
qed

text \<open>
  C6. Let the document open, with at least one worker, and let no exception escape the
  writer. A worker that holds an index whose page does not open goes straight back to
  \<^verbatim>\<open>fetch_add\<close>: its step pushes nothing and changes nothing else. Every result pushed is
  the result of a page that opens, so there is none for a page that does not open; the
  result of every page that opens is pushed; every result pushed is written; and
  \<^verbatim>\<open>process_pdf\<close> returns, with nothing added to \<^verbatim>\<open>std::cerr\<close>. On the file system (for a
  file name that is not empty and has no separator in it): every page that opens has its
  directory and, unless a directory was in the file's place, its text in
  \<^verbatim>\<open>text_layer.txt\<close>; the directory and the file of a page that does not open are as they
  were before. All this holds whatever the counter does. If the page count and the number
  of workers together are at most \<open>2^31\<close>, the results pushed are, up to order, those of
  the pages that open, one each.
\<close>

theorem unopenable_page_is_skipped:
  assumes "1 \<le> thread_count fr"
    and "load_from_file env p = Some (doc fr)"
    and "pdf_name_v fr = stem p"
    and "run fr sched (disk w) = (s, tr)"
    and "\<not> terminated s"
  shows "(\<forall>s0 v k. \<not> terminated s0 \<and> v < length (threads s0) \<and> threads s0 ! v = W_check k \<and>
                  k < num_pages fr \<and> create_page (doc fr) k = None \<longrightarrow>
            step fr s0 (Worker v)
              = Some (Null_page v k, s0\<lparr>threads := (threads s0)[v := W_fetch_add]\<rparr>)) \<and>
         (\<forall>r. r \<in> set (pushed tr) \<longrightarrow>
            page_id r < num_pages fr \<and> create_page (doc fr) (page_id r) \<noteq> None \<and>
            r = process_page (create_page (doc fr) (page_id r)) (stem p) (page_id r)) \<and>
         (\<forall>k. create_page (doc fr) k = None \<longrightarrow> k \<notin> page_id ` set (pushed tr)) \<and>
         (\<forall>k. 0 \<le> k \<and> k < num_pages fr \<and> create_page (doc fr) k \<noteq> None \<longrightarrow>
            process_page (create_page (doc fr) k) (stem p) k \<in> set (written tr)) \<and>
         written tr = pushed tr \<and>
         process_pdf sched env p (output_dir fr) (thread_count fr) w
           = Inr (tr, w\<lparr>disk := files s\<rparr>) \<and>
         cerr (w\<lparr>disk := files s\<rparr>) = cerr w \<and>
         (filename p \<noteq> [] \<and> CHR ''/'' \<notin> set (filename p) \<longrightarrow>
            (\<forall>k pg. 0 \<le> k \<and> k < num_pages fr \<and> create_page (doc fr) k = Some pg \<longrightarrow>
               files s (output_dir fr @ [stem p, to_string k]) = Some Directory \<and>
               (disk w (output_dir fr @ [stem p, to_string k, ''text_layer.txt''])
                  \<noteq> Some Directory \<longrightarrow>
                  files s (output_dir fr @ [stem p, to_string k, ''text_layer.txt''])
                    = Some (Regular (text_to_utf8 pg)))) \<and>
            (\<forall>k. create_page (doc fr) k = None \<longrightarrow>
               files s (output_dir fr @ [stem p, to_string k])
                 = disk w (output_dir fr @ [stem p, to_string k]) \<and>
               files s (output_dir fr @ [stem p, to_string k, ''text_layer.txt''])
                 = disk w (output_dir fr @ [stem p, to_string k, ''text_layer.txt'']))) \<and>
         (max 0 (num_pages fr) + thread_count fr \<le> 2 ^ 31 \<longrightarrow>
            mset (pushed tr) =
              mset (map (\<lambda>i. process_page (create_page (doc fr) i) (stem p) i)
                     (filter (\<lambda>i. create_page (doc fr) i \<noteq> None) [0..num_pages fr - 1])))"
proof -
  have fr: "\<lparr>pdf_name_v = stem p, doc = doc fr, output_dir = output_dir fr,
             thread_count = thread_count fr\<rparr> = fr"
    using assms(3) by (cases fr) simp
  have sh: "shutdown_inv fr (disk w) (s, tr)"
    using shutdown_inv_run [of fr "disk w" sched] assms(4) by simp
  have ret: "coordinator s = M_return"
    using run_final [OF assms(4)] assms(5) by simp
  note one = assms(1)
  have skip: "\<forall>s0 v k. \<not> terminated s0 \<and> v < length (threads s0) \<and> threads s0 ! v = W_check k \<and>
                  k < num_pages fr \<and> create_page (doc fr) k = None \<longrightarrow>
            step fr s0 (Worker v)
              = Some (Null_page v k, s0\<lparr>threads := (threads s0)[v := W_fetch_add]\<rparr>)"
    by (simp add: step_def worker_def)
  have mk: "\<forall>r. r \<in> set (pushed tr) \<longrightarrow>
            page_id r < num_pages fr \<and> create_page (doc fr) (page_id r) \<noteq> None \<and>
            r = process_page (create_page (doc fr) (page_id r)) (stem p) (page_id r)"
    using completed_made [OF sh] assms(3) by (auto simp: made_def opens_def)
  then have none: "\<forall>k. create_page (doc fr) k = None \<longrightarrow> k \<notin> page_id ` set (pushed tr)"
    by auto
  have wr: "written tr = pushed tr" using sh ret by (rule completed)
  have all: "\<forall>k. 0 \<le> k \<and> k < num_pages fr \<and> create_page (doc fr) k \<noteq> None \<longrightarrow>
            process_page (create_page (doc fr) k) (stem p) k \<in> set (written tr)"
  proof (intro allI impI)
    fix k assume k: "0 \<le> k \<and> k < num_pages fr \<and> create_page (doc fr) k \<noteq> None"
    then have "opens fr k" by (simp add: opens_def)
    with k completed_pushed [OF sh ret one, of k] assms(3)
    show "process_page (create_page (doc fr) k) (stem p) k \<in> set (written tr)"
      by (simp add: wr)
  qed
  have "run \<lparr>pdf_name_v = stem p, doc = doc fr, output_dir = output_dir fr,
              thread_count = thread_count fr\<rparr> sched (disk w) = (s, tr)"
    using assms(4) by (simp only: fr)
  with assms(2)
  have "process_pdf sched env p (output_dir fr) (thread_count fr) w
          = (if terminated s then Inl Uncaught_exception else Inr (tr, w\<lparr>disk := files s\<rparr>))"
    by (rule process_pdf_loaded)
  with assms(5)
  have pp: "process_pdf sched env p (output_dir fr) (thread_count fr) w
              = Inr (tr, w\<lparr>disk := files s\<rparr>)"
    by simp
  have fsys: "(\<forall>k pg. 0 \<le> k \<and> k < num_pages fr \<and> create_page (doc fr) k = Some pg \<longrightarrow>
               files s (output_dir fr @ [stem p, to_string k]) = Some Directory \<and>
               (disk w (output_dir fr @ [stem p, to_string k, ''text_layer.txt''])
                  \<noteq> Some Directory \<longrightarrow>
                  files s (output_dir fr @ [stem p, to_string k, ''text_layer.txt''])
                    = Some (Regular (text_to_utf8 pg)))) \<and>
            (\<forall>k. create_page (doc fr) k = None \<longrightarrow>
               files s (output_dir fr @ [stem p, to_string k])
                 = disk w (output_dir fr @ [stem p, to_string k]) \<and>
               files s (output_dir fr @ [stem p, to_string k, ''text_layer.txt''])
                 = disk w (output_dir fr @ [stem p, to_string k, ''text_layer.txt'']))"
    if f: "filename p \<noteq> [] \<and> CHR ''/'' \<notin> set (filename p)"
  proof -
    from f have ok: "pdf_name_v fr \<noteq> []" "CHR ''/'' \<notin> set (pdf_name_v fr)"
      using stem_of_ok [of "filename p"] assms(3) by (simp_all add: stem_def)
    note cf = completed_files [OF sh ret one ok, unfolded assms(3)]
    show ?thesis
    proof (intro conjI allI impI)
      fix k pg
      assume k: "0 \<le> k \<and> k < num_pages fr \<and> create_page (doc fr) k = Some pg"
      from cf(1) [OF k]
      show "files s (output_dir fr @ [stem p, to_string k]) = Some Directory" by simp
      assume "disk w (output_dir fr @ [stem p, to_string k, ''text_layer.txt'']) \<noteq> Some Directory"
      with cf(1) [OF k]
      show "files s (output_dir fr @ [stem p, to_string k, ''text_layer.txt''])
                    = Some (Regular (text_to_utf8 pg))" by simp
    next
      fix k
      assume k: "create_page (doc fr) k = None"
      from cf(2) [OF k]
      show "files s (output_dir fr @ [stem p, to_string k])
              = disk w (output_dir fr @ [stem p, to_string k])"
        and "files s (output_dir fr @ [stem p, to_string k, ''text_layer.txt''])
                 = disk w (output_dir fr @ [stem p, to_string k, ''text_layer.txt''])"
        by simp_all
    qed
  qed
  have exact: "mset (pushed tr) =
              mset (map (\<lambda>i. process_page (create_page (doc fr) i) (stem p) i)
                     (filter (\<lambda>i. create_page (doc fr) i \<noteq> None) [0..num_pages fr - 1]))"
    if bound: "max 0 (num_pages fr) + thread_count fr \<le> 2 ^ 31"
  proof -
    have fits: "fits fr" using one bound by (simp add: fits_def)
    have inv: "pipeline_inv fr (disk w) (s, tr)"
      using pipeline_inv_run [OF fits, of "disk w" sched] assms(4) by simp
    from completed_results [OF inv ret one] show ?thesis by (simp add: assms(3))
  qed
  from skip mk none all wr pp fsys exact show ?thesis by simp
qed

theorem unopenable_page_is_skipped_witness:
  "mset (map page_id (pushed (snd (run \<lparr>pdf_name_v = stem [''in'', ''torn.pdf''],
        doc = torn_document, output_dir = [''out''], thread_count = 2\<rparr> torn_schedule
        (disk empty_world))))) = mset [0, 2] \<and>
   1 \<notin> page_id ` set (pushed (snd (run \<lparr>pdf_name_v = stem [''in'', ''torn.pdf''],
        doc = torn_document, output_dir = [''out''], thread_count = 2\<rparr> torn_schedule
        (disk empty_world)))) \<and>
   cerr (snd (projr (process_pdf torn_schedule torn_environment [''in'', ''torn.pdf''] [''out''] 2
                      empty_world))) = [] \<and>
   files (fst (run \<lparr>pdf_name_v = stem [''in'', ''torn.pdf''],
        doc = torn_document, output_dir = [''out''], thread_count = 2\<rparr> torn_schedule
        (disk empty_world))) [''out'', ''torn'', ''2'', ''text_layer.txt''] = Some (Regular ''third'') \<and>
   files (fst (run \<lparr>pdf_name_v = stem [''in'', ''torn.pdf''],
        doc = torn_document, output_dir = [''out''], thread_count = 2\<rparr> torn_schedule
        (disk empty_world))) [''out'', ''torn'', ''1''] = None"
proof -
  let ?fr = "\<lparr>pdf_name_v = stem [''in'', ''torn.pdf''],
        doc = torn_document, output_dir = [''out''], thread_count = 2\<rparr>"
  let ?r = "run ?fr torn_schedule (disk empty_world)"
  have l: "load_from_file torn_environment [''in'', ''torn.pdf''] = Some (doc ?fr)"
    by (simp add: torn_environment_def)
  have nm: "pdf_name_v ?fr = stem [''in'', ''torn.pdf'']" by simp
  have r: "?r = (fst ?r, snd ?r)" by simp
  have t: "\<not> terminated (fst ?r)" by code_simp
  have one: "1 \<le> thread_count ?fr" by simp
  have np: "num_pages ?fr = 3" by (simp add: num_pages_def torn_document_def int32_def)
  note u = unopenable_page_is_skipped [OF one l nm r t, unfolded np, simplified frame.simps]
  from u have a: "mset (pushed (snd ?r)) =
      mset (map (\<lambda>i. process_page (create_page torn_document i) (stem [''in'', ''torn.pdf'']) i)
             (filter (\<lambda>i. create_page torn_document i \<noteq> None) [0..3 - 1]))"
    by simp
  have f: "filter (\<lambda>i. create_page torn_document i \<noteq> None) [0..3 - 1] = [0, 2]"
    by (simp add: torn_document_def upto_rec1)
  from a have "image_mset page_id (mset (pushed (snd ?r))) = image_mset page_id (mset
      (map (\<lambda>i. process_page (create_page torn_document i) (stem [''in'', ''torn.pdf'']) i) [0, 2]))"
    by (simp only: f)
  then have b: "mset (map page_id (pushed (snd ?r))) = mset [0, 2]"
    by (simp add: process_page_def torn_document_def)
  from u have c: "create_page torn_document 1 = None \<longrightarrow> 1 \<notin> page_id ` set (pushed (snd ?r))"
    by blast
  then have c': "1 \<notin> page_id ` set (pushed (snd ?r))" by (simp add: torn_document_def)
  from u have "process_pdf torn_schedule torn_environment [''in'', ''torn.pdf''] [''out''] 2 empty_world
      = Inr (snd ?r, empty_world\<lparr>disk := files (fst ?r)\<rparr>)"
    by blast
  then have d: "cerr (snd (projr (process_pdf torn_schedule torn_environment [''in'', ''torn.pdf'']
      [''out''] 2 empty_world))) = []"
    by (simp add: empty_world_def)
  have st: "stem [''in'', ''torn.pdf''] = ''torn''" "to_string 2 = ''2''" "to_string 1 = ''1''"
    by code_simp+
  have fn: "filename [''in'', ''torn.pdf''] \<noteq> [] \<and> CHR ''/'' \<notin> set (filename [''in'', ''torn.pdf''])"
    by (simp add: filename_def)
  from u fn have "0 \<le> (2::int) \<and> (2::int) < 3 \<and>
        create_page torn_document 2 = Some (Page ''third'') \<longrightarrow>
      (disk empty_world ([''out''] @ [stem [''in'', ''torn.pdf''], to_string 2, ''text_layer.txt''])
          \<noteq> Some Directory \<longrightarrow>
        files (fst ?r) ([''out''] @ [stem [''in'', ''torn.pdf''], to_string 2, ''text_layer.txt''])
          = Some (Regular (text_to_utf8 (Page ''third''))))"
    by blast
  then have e: "files (fst ?r) [''out'', ''torn'', ''2'', ''text_layer.txt'']
      = Some (Regular ''third'')"
    by (simp add: st torn_document_def empty_world_def)
  from u fn have "create_page torn_document 1 = None \<longrightarrow>
      files (fst ?r) ([''out''] @ [stem [''in'', ''torn.pdf''], to_string 1])
        = disk empty_world ([''out''] @ [stem [''in'', ''torn.pdf''], to_string 1])"
    by blast
  then have g: "files (fst ?r) [''out'', ''torn'', ''1''] = None"
    by (simp add: st torn_document_def empty_world_def)
  from b c' d e g show ?thesis by simp
qed

end
